theory Spec2Isabelle
  imports Main
begin

section \<open>Strings of the logger and of the configuration\<close>

text \<open>
  JavaScript strings are modelled as \<^typ>\<open>string\<close>, one \<^typ>\<open>char\<close> per code unit, so the
  development covers the code units below 256. The white space of \<open>trimEnd\<close> and of
  \<open>Number.parseInt\<close> in that range is TAB, LF, VT, FF, CR, SPACE and NBSP.
\<close>

definition isWhiteSpace :: "char \<Rightarrow> bool" where
  "isWhiteSpace c =
     (c \<in> set [CHR 0x09, CHR 0x0A, CHR 0x0B, CHR 0x0C, CHR 0x0D, CHR 0x20, CHR 0xA0])"

definition isDigit :: "char \<Rightarrow> bool" where
  "isDigit c = (48 \<le> (of_char c :: nat) \<and> (of_char c :: nat) \<le> 57)"

definition digitValue :: "char \<Rightarrow> int" where
  "digitValue c = int (of_char c) - 48"

definition digitsValue :: "string \<Rightarrow> int" where
  "digitsValue ds = foldl (\<lambda>acc c. 10 * acc + digitValue c) 0 ds"

text \<open>
  The numbers of the configuration. \<open>Number.parseInt\<close> returns a Number, a double: it is
  \<open>NaN\<close>, an infinity, or a finite double whose value is an integer. \<^term>\<open>Finite z\<close> is the
  finite double of value \<open>z\<close> (the sign of a zero plays no part in what follows).
\<close>

datatype JsNumber = NaN | Finite int | PosInfinity | NegInfinity

text \<open>The number of binary digits of a positive integer.\<close>

function bitLength :: "int \<Rightarrow> nat" where
  "bitLength n = (if n \<le> 0 then 0 else Suc (bitLength (n div 2)))"
  by pat_completeness auto
termination
  by (relation "measure nat") auto

declare bitLength.simps [simp del]

text \<open>
  The Number value for a non-negative integer: the integer itself below \<open>2^53\<close>; above, the
  nearest integer with 53 significant binary digits, a tie going to the even significand.
  A result of \<open>2^1024\<close> or more is beyond the largest double and stands for infinity.
\<close>

definition roundToDouble :: "int \<Rightarrow> int" where
  "roundToDouble n =
     (if n < 2 ^ 53 then n
      else let e = bitLength n - 53;
               q = n div 2 ^ e;
               r = n mod 2 ^ e;
               q' = (if 2 ^ e < 2 * r \<or> (2 * r = 2 ^ e \<and> odd q) then q + 1 else q)
           in q' * 2 ^ e)"

definition toNumber :: "int \<Rightarrow> JsNumber" where
  "toNumber z =
     (let m = roundToDouble \<bar>z\<bar>
      in if 2 ^ 1024 \<le> m then (if z < 0 then NegInfinity else PosInfinity)
         else Finite (if z < 0 then - m else m))"

text \<open>
  \<open>Number.parseInt(raw, 10)\<close>: leading white space is skipped, one sign is read, and the
  longest prefix of decimal digits is read as an integer; no digit at all is \<open>NaN\<close>. The
  result is the Number value for the signed integer. (The language lets an implementation
  read the digits after the twentieth significant one as zeros; the digits are read exactly
  here.)
\<close>

definition parseInt10 :: "string \<Rightarrow> JsNumber" where
  "parseInt10 input =
     (let s = dropWhile isWhiteSpace input;
          sign = (case s of c # _ \<Rightarrow> if c = CHR ''-'' then - 1 else 1 | [] \<Rightarrow> (1::int));
          s' = (case s of c # r \<Rightarrow> if c = CHR ''-'' \<or> c = CHR ''+'' then r else s | [] \<Rightarrow> s);
          z = takeWhile isDigit s'
      in if z = [] then NaN else toNumber (sign * digitsValue z))"

text \<open>
  \<open>Number.isNaN\<close> and the comparisons \<open><\<close> and \<open>>=\<close> of two Numbers: a comparison with
  \<open>NaN\<close> on either side is false.
\<close>

fun isNaN :: "JsNumber \<Rightarrow> bool" where
  "isNaN NaN = True"
| "isNaN _ = False"

fun lessThan :: "JsNumber \<Rightarrow> JsNumber \<Rightarrow> bool" where
  "lessThan NaN _ = False"
| "lessThan _ NaN = False"
| "lessThan (Finite a) (Finite b) = (a < b)"
| "lessThan (Finite _) PosInfinity = True"
| "lessThan (Finite _) NegInfinity = False"
| "lessThan PosInfinity _ = False"
| "lessThan NegInfinity NegInfinity = False"
| "lessThan NegInfinity _ = True"

definition greaterEq :: "JsNumber \<Rightarrow> JsNumber \<Rightarrow> bool" where
  "greaterEq x y = (\<not> isNaN x \<and> \<not> isNaN y \<and> \<not> lessThan x y)"

text \<open>
  The ceiling of the worker:
  \<^verbatim>\<open>
  const raw = process.env.MAX_CONCURRENT_JOBS ?? '3';
  const parsed = Number.parseInt(raw, 10);
  return Number.isNaN(parsed) || parsed < 1 ? 1 : parsed;
  \<close>
  The argument is the value of the environment variable, \<^const>\<open>None\<close> when it is absent.
\<close>

definition maxConcurrentJobs :: "string option \<Rightarrow> JsNumber" where
  "maxConcurrentJobs env =
     (let raw = (case env of None \<Rightarrow> ''3'' | Some v \<Rightarrow> v);
          parsed = parseInt10 raw
      in if isNaN parsed \<or> lessThan parsed (Finite 1) then Finite 1 else parsed)"

text \<open>
  \<open>stripAnsi\<close> replaces every match of \<open>/\x1b\[[0-9;]*m/g\<close> by the empty string. At an
  ESC the pattern is tried: a bracket, the longest run of digits and semicolons, and the
  letter m. The run cannot be shortened to find the m, so one attempt settles the position.
\<close>

definition isCsiParam :: "char \<Rightarrow> bool" where
  "isCsiParam c = (isDigit c \<or> c = CHR '';'')"

fun csiMatch :: "string \<Rightarrow> string option" where
  "csiMatch [] = None"
| "csiMatch (c # cs) =
     (if c = CHR ''[''
      then (case dropWhile isCsiParam cs of
              [] \<Rightarrow> None
            | m # rest \<Rightarrow> if m = CHR ''m'' then Some rest else None)
      else None)"

function stripAnsi :: "string \<Rightarrow> string" where
  "stripAnsi [] = []"
| "stripAnsi (c # cs) =
     (if c = CHR 0x1B
      then (case csiMatch cs of
              Some rest \<Rightarrow> stripAnsi rest
            | None \<Rightarrow> c # stripAnsi cs)
      else c # stripAnsi cs)"
  by pat_completeness auto
termination
proof (relation "measure length")
  show "wf (measure length)" by simp
next
  fix c :: char and cs rest :: string
  assume "csiMatch cs = Some rest"
  then have "length rest < length cs"
  proof (cases cs)
    case Nil
    assume "csiMatch cs = Some rest"
    with Nil show ?thesis by simp
  next
    case (Cons b bs)
    assume m: "csiMatch cs = Some rest"
    have "length (dropWhile isCsiParam bs) \<le> length bs"
      by (rule length_dropWhile_le)
    with m Cons show ?thesis
      by (auto split: if_splits list.splits)
  qed
  then show "(rest, c # cs) \<in> measure length" by simp
next
  fix c :: char and cs :: string
  show "(cs, c # cs) \<in> measure length" by simp
next
  fix c :: char and cs :: string
  show "(cs, c # cs) \<in> measure length" by simp
qed

text \<open>\<open>split('\n')\<close>: the pieces between line feeds; the empty string gives one empty piece.\<close>

fun splitLines :: "string \<Rightarrow> string list" where
  "splitLines [] = [[]]"
| "splitLines (c # cs) =
     (if c = CHR 0x0A then [] # splitLines cs
      else (case splitLines cs of
              [] \<Rightarrow> [[c]]
            | l # ls \<Rightarrow> (c # l) # ls))"

definition trimEnd :: "string \<Rightarrow> string" where
  "trimEnd l = rev (dropWhile isWhiteSpace (rev l))"


section \<open>The worker's data\<close>

text \<open>
  \<^verbatim>\<open>
  type JobStatus = 'running' | 'completed' | 'failed' | 'terminated';
  type Job = { id; status; logs: string[]; listeners: Set<{send, end}>; controller };
  \<close>
  A job is an object on the heap: the registry, the log sink, the task's promise handlers
  and the stream handler's closures all hold a reference to it. The heap is the list
  \<open>objs\<close>, a reference is an index. The field \<open>id\<close> is \<open>job_id\<close> here, \<open>aborted\<close> is
  \<open>controller.signal.aborted\<close>, and \<open>listeners\<close> holds references to the listener
  objects in \<open>conns\<close>. A \<open>Set\<close> is the list of its members in insertion order, which
  is the order a \<open>for ... of\<close> loop visits them.
\<close>

datatype JobStatus = Running | Completed | Failed | Terminated

record Job =
  job_id :: string
  status :: JobStatus
  logs :: "string list"
  listeners :: "nat list"
  aborted :: bool

text \<open>
  A listener is the object the stream handler builds around one response: \<open>written\<close> are
  the chunks passed to \<open>res.write\<close>, \<open>ended\<close> is the closure's flag (set exactly when
  \<open>res.end()\<close> is called), \<open>owner\<close> is the job the closure captured.
\<close>

record Listener =
  written :: "string list"
  ended :: bool
  owner :: nat

text \<open>
  The promise chain \<open>runBot(...).then(...).catch(...).finally(...)\<close> of a job: pending,
  then settled (the \<open>then\<close> or the \<open>catch\<close> handler has run), then finished (the
  \<open>finally\<close> handler has run).
\<close>

datatype Phase = NoTask | Pending | Settled | Finished

text \<open>
  The state of the worker process: the two heaps, the module-level \<open>jobs\<close> map and
  \<open>runningJobs\<close> set, the logger's \<open>logSinks\<close> map, the phase of each job's promise
  chain, and what was printed with \<open>console.log\<close>.
\<close>

record Worker =
  objs :: "Job list"
  jobs :: "string \<rightharpoonup> nat"
  runningJobs :: "string list"
  logSinks :: "string \<rightharpoonup> nat"
  conns :: "Listener list"
  tasks :: "nat \<Rightarrow> Phase"
  console :: "string list"

definition init :: Worker where
  "init = \<lparr>objs = [], jobs = Map.empty, runningJobs = [], logSinks = Map.empty,
            conns = [], tasks = (\<lambda>_. NoTask), console = []\<rparr>"

definition setAdd :: "'a \<Rightarrow> 'a list \<Rightarrow> 'a list" where
  "setAdd x xs = (if x \<in> set xs then xs else xs @ [x])"

definition setDelete :: "'a \<Rightarrow> 'a list \<Rightarrow> 'a list" where
  "setDelete x xs = removeAll x xs"

definition updJob :: "nat \<Rightarrow> (Job \<Rightarrow> Job) \<Rightarrow> Worker \<Rightarrow> Worker" where
  "updJob r f s = s\<lparr>objs := (objs s)[r := f (objs s ! r)]\<rparr>"

definition updConn :: "nat \<Rightarrow> (Listener \<Rightarrow> Listener) \<Rightarrow> Worker \<Rightarrow> Worker" where
  "updConn c f s = s\<lparr>conns := (conns s)[c := f (conns s ! c)]\<rparr>"

section \<open>Fan-out\<close>

text \<open>
  \<^verbatim>\<open>
  const send = (event, data) => {
    res.write(`event: ${event}\n`);
    res.write(`data: ${data.replace(/\n/g, '\\n')}\n\n`);
  };
  \<close>
\<close>

definition escapeNewlines :: "string \<Rightarrow> string" where
  "escapeNewlines d = concat (map (\<lambda>c. if c = CHR 0x0A then [CHR 0x5C, CHR ''n''] else [c]) d)"

definition sendWrites :: "string \<Rightarrow> string \<Rightarrow> string list" where
  "sendWrites event d =
     [''event: '' @ event @ [CHR 0x0A], ''data: '' @ escapeNewlines d @ [CHR 0x0A, CHR 0x0A]]"

definition send :: "nat \<Rightarrow> string \<Rightarrow> string \<Rightarrow> Worker \<Rightarrow> Worker" where
  "send c event d s = updConn c (\<lambda>l. l\<lparr>written := written l @ sendWrites event d\<rparr>) s"

text \<open>
  \<^verbatim>\<open>
  end: () => { if (ended) return; ended = true; job.listeners.delete(listener); res.end(); }
  \<close>
\<close>

definition listenerEnd :: "nat \<Rightarrow> Worker \<Rightarrow> Worker" where
  "listenerEnd c s =
     (if ended (conns s ! c) then s
      else updJob (owner (conns s ! c)) (\<lambda>j. j\<lparr>listeners := setDelete c (listeners j)\<rparr>)
             (updConn c (\<lambda>l. l\<lparr>ended := True\<rparr>) s))"

text \<open>
  \<^verbatim>\<open>
  function pushLog(job, line) {
    job.logs.push(line);
    for (const listener of job.listeners) listener.send('log', line);
  }
  function pushStatus(job, status) {
    for (const listener of job.listeners) {
      listener.send('status', status);
      if (status === 'terminated') listener.end();
    }
  }
  \<close>
  \<open>end\<close> deletes from the set only the listener the loop is at, so the loop visits the
  members the set had when it began.
\<close>

definition pushLog :: "nat \<Rightarrow> string \<Rightarrow> Worker \<Rightarrow> Worker" where
  "pushLog r line s =
     (let s1 = updJob r (\<lambda>j. j\<lparr>logs := logs j @ [line]\<rparr>) s
      in foldl (\<lambda>t c. send c ''log'' line t) s1 (listeners (objs s1 ! r)))"

definition pushStatus :: "nat \<Rightarrow> string \<Rightarrow> Worker \<Rightarrow> Worker" where
  "pushStatus r st s =
     foldl (\<lambda>t c. let t1 = send c ''status'' st t
                   in if st = ''terminated'' then listenerEnd c t1 else t1)
       s (listeners (objs s ! r))"

section \<open>The logger\<close>

text \<open>
  \<open>logSinks\<close> maps a job id to the sink \<open>startLogSink\<close> registered, a closure over the job
  object: \<open>(entry) => pushLog(job, entry.message)\<close>. The ambient binding
  \<open>logContext.getStore()\<close> of a log call is an argument: \<^const>\<open>None\<close> outside
  \<open>withJobContext\<close>, the job id inside. \<open>timestamp()\<close> reads the clock and is an
  argument too.
\<close>

record LogEntry =
  level :: string
  message :: string
  timestamp :: string

definition logSink :: "nat \<Rightarrow> LogEntry \<Rightarrow> Worker \<Rightarrow> Worker" where
  "logSink r entry s = pushLog r (message entry) s"

definition emit :: "string option \<Rightarrow> string \<Rightarrow> string \<Rightarrow> string \<Rightarrow> Worker \<Rightarrow> Worker" where
  "emit context lvl formatted ts s =
     (case context of
        None \<Rightarrow> s
      | Some jobId \<Rightarrow>
          (case logSinks s jobId of
             None \<Rightarrow> s
           | Some r \<Rightarrow>
               foldl (\<lambda>t line. let trimmed = trimEnd line
                                in if length trimmed = 0 then t
                                   else logSink r \<lparr>level = lvl, message = trimmed, timestamp = ts\<rparr> t)
                 s (splitLines (stripAnsi formatted))))"

definition print :: "string option \<Rightarrow> string \<Rightarrow> string \<Rightarrow> string \<Rightarrow> Worker \<Rightarrow> Worker" where
  "print context lvl formatted ts s =
     emit context lvl formatted ts (s\<lparr>console := console s @ [formatted]\<rparr>)"

section \<open>The endpoints\<close>

datatype Reply =
    TooManyRequests
  | BadRequest
  | Accepted string
  | NotFound
  | Conflict JobStatus
  | AcceptedEnd
  | EventStream nat

fun httpStatus :: "Reply \<Rightarrow> nat" where
  "httpStatus TooManyRequests = 429"
| "httpStatus BadRequest = 400"
| "httpStatus (Accepted _) = 202"
| "httpStatus NotFound = 404"
| "httpStatus (Conflict _) = 409"
| "httpStatus AcceptedEnd = 202"
| "httpStatus (EventStream _) = 200"

text \<open>
  The body of a start request, as far as the worker itself reads it: \<open>!email\<close> holds of a
  missing and of an empty string. The other fields are handed to the task.
\<close>

record StartRequest =
  email :: "string option"
  password :: "string option"

definition falsy :: "string option \<Rightarrow> bool" where
  "falsy v = (v = None \<or> v = Some [])"

definition newJob :: "string \<Rightarrow> Job" where
  "newJob i = \<lparr>job_id = i, status = Running, logs = [], listeners = [], aborted = False\<rparr>"

text \<open>
  \<open>POST /jobs/start\<close>. The handler has no \<open>await\<close>: it runs from the capacity check to the
  response as one step. The argument \<open>i\<close> is what \<open>randomUUID()\<close> returns. \<open>register\<close> is
  the allocation of the job object followed by \<open>jobs.set(job.id, job)\<close>,
  \<open>runningJobs.add(job.id)\<close> and \<open>startLogSink(job)\<close>; the task begins pending inside
  \<open>withJobContext(job.id, ...)\<close>, and what it logs are later \<open>print\<close> calls with that
  binding.
\<close>

definition register :: "string \<Rightarrow> Worker \<Rightarrow> Worker" where
  "register i s =
     s\<lparr>objs := objs s @ [newJob i],
       jobs := (jobs s)(i \<mapsto> length (objs s)),
       runningJobs := setAdd i (runningJobs s),
       logSinks := (logSinks s)(i \<mapsto> length (objs s)),
       tasks := (tasks s)(length (objs s) := Pending)\<rparr>"

definition start :: "JsNumber \<Rightarrow> string \<Rightarrow> StartRequest \<Rightarrow> Worker \<Rightarrow> Reply \<times> Worker" where
  "start mx i req s =
     (if greaterEq (Finite (int (length (runningJobs s)))) mx then (TooManyRequests, s)
      else if falsy (email req) \<or> falsy (password req) then (BadRequest, s)
      else (Accepted i, pushLog (length (objs s)) ''Job started.'' (register i s)))"

text \<open>
  \<open>GET /jobs/:id/stream\<close> and the \<open>close\<close> event of its request. The handler is
  synchronous: the replay loop over \<open>job.logs\<close> and \<open>job.listeners.add(listener)\<close> are
  one step.
\<close>

definition openStream :: "nat \<Rightarrow> Worker \<Rightarrow> Worker" where
  "openStream r s = s\<lparr>conns := conns s @ [\<lparr>written = [], ended = False, owner = r\<rparr>]\<rparr>"

definition stream :: "string \<Rightarrow> Worker \<Rightarrow> Reply \<times> Worker" where
  "stream i s =
     (case jobs s i of
        None \<Rightarrow> (NotFound, s)
      | Some r \<Rightarrow>
          let c = length (conns s);
              s1 = openStream r s;
              s2 = foldl (\<lambda>t line. send c ''log'' line t) s1 (logs (objs s1 ! r));
              s3 = updJob r (\<lambda>j. j\<lparr>listeners := setAdd c (listeners j)\<rparr>) s2
          in (EventStream c, s3))"

definition onClose :: "nat \<Rightarrow> Worker \<Rightarrow> Worker" where
  "onClose c s =
     (if c < length (conns s) \<and> \<not> ended (conns s ! c)
      then updJob (owner (conns s ! c)) (\<lambda>j. j\<lparr>listeners := setDelete c (listeners j)\<rparr>) s
      else s)"

text \<open>
  \<open>POST /jobs/:id/end\<close>. \<open>job.controller.abort()\<close> sets the token and runs the listeners
  the task put on the signal. They run in the context of this request, which has no job
  binding, so a log call of theirs reaches the console only.
\<close>

definition endJob :: "string \<Rightarrow> Worker \<Rightarrow> Reply \<times> Worker" where
  "endJob i s =
     (case jobs s i of
        None \<Rightarrow> (NotFound, s)
      | Some r \<Rightarrow>
          if status (objs s ! r) \<noteq> Running then (Conflict (status (objs s ! r)), s)
          else (AcceptedEnd,
                pushLog r ''Termination requested.'' (updJob r (\<lambda>j. j\<lparr>aborted := True\<rparr>) s)))"

section \<open>The task runner\<close>

text \<open>
  \<^verbatim>\<open>
  .then(() => {
    job.status = job.controller.signal.aborted ? 'terminated' : 'completed';
    pushLog(job, 'Job terminated successfully.');
    pushStatus(job, 'terminated');
  })
  .catch((error) => {
    job.status = job.controller.signal.aborted ? 'terminated' : 'failed';
    pushLog(job, `Job failed: ${error instanceof Error ? error.message : String(error)}`);
    pushLog(job, 'Job terminated successfully.');
    pushStatus(job, 'terminated');
  })
  .finally(() => { stopLogSink(job); runningJobs.delete(job.id); });
  \<close>
  Each handler is a step of its own (a microtask). A handler runs when the chain of its job
  is in the phase before it, and not otherwise. The rejection is given by its message text.
\<close>

definition onResolved :: "nat \<Rightarrow> Worker \<Rightarrow> Worker" where
  "onResolved r s =
     (if r < length (objs s) \<and> tasks s r = Pending
      then
        let s1 = updJob r (\<lambda>j. j\<lparr>status := if aborted j then Terminated else Completed\<rparr>) s;
            s2 = pushLog r ''Job terminated successfully.'' s1;
            s3 = pushStatus r ''terminated'' s2
        in s3\<lparr>tasks := (tasks s3)(r := Settled)\<rparr>
      else s)"

definition onRejected :: "nat \<Rightarrow> string \<Rightarrow> Worker \<Rightarrow> Worker" where
  "onRejected r msg s =
     (if r < length (objs s) \<and> tasks s r = Pending
      then
        let s1 = updJob r (\<lambda>j. j\<lparr>status := if aborted j then Terminated else Failed\<rparr>) s;
            s2 = pushLog r (''Job failed: '' @ msg) s1;
            s3 = pushLog r ''Job terminated successfully.'' s2;
            s4 = pushStatus r ''terminated'' s3
        in s4\<lparr>tasks := (tasks s4)(r := Settled)\<rparr>
      else s)"

definition onFinally :: "nat \<Rightarrow> Worker \<Rightarrow> Worker" where
  "onFinally r s =
     (if r < length (objs s) \<and> tasks s r = Settled
      then s\<lparr>logSinks := (logSinks s)(job_id (objs s ! r) := None),
             runningJobs := setDelete (job_id (objs s ! r)) (runningJobs s),
             tasks := (tasks s)(r := Finished)\<rparr>
      else s)"

section \<open>Runs of the worker\<close>

text \<open>
  The worker runs on one event loop: each request handler, each promise handler and each
  log call runs to its end before the next begins. A run is a list of such events. A
  \<open>Start\<close> carries the id \<open>randomUUID()\<close> returns and the request body, a \<open>Print\<close> carries
  the binding under which the log call is made, a \<open>Close\<close> names the response whose request
  was closed, and \<open>Resolved\<close>, \<open>Rejected\<close> and \<open>Finally\<close> name the job object whose
  promise handler runs.
\<close>

datatype Event =
    Start string StartRequest
  | Stream string
  | Close nat
  | End string
  | Print "string option" string string string
  | Resolved nat
  | Rejected nat string
  | Finally nat

fun step :: "JsNumber \<Rightarrow> Worker \<Rightarrow> Event \<Rightarrow> Worker" where
  "step mx s (Start i req) = snd (start mx i req s)"
| "step mx s (Stream i) = snd (stream i s)"
| "step mx s (Close c) = onClose c s"
| "step mx s (End i) = snd (endJob i s)"
| "step mx s (Print context lvl formatted ts) = print context lvl formatted ts s"
| "step mx s (Resolved r) = onResolved r s"
| "step mx s (Rejected r msg) = onRejected r msg s"
| "step mx s (Finally r) = onFinally r s"

definition run :: "JsNumber \<Rightarrow> Worker \<Rightarrow> Event list \<Rightarrow> Worker" where
  "run mx s es = foldl (step mx) s es"

text \<open>
  \<open>randomUUID()\<close> is outside the worker. A run has fresh ids when every start request is
  given an id the registry does not hold.
\<close>

fun freshIds :: "JsNumber \<Rightarrow> Worker \<Rightarrow> Event list \<Rightarrow> bool" where
  "freshIds mx s [] = True"
| "freshIds mx s (e # es) =
     ((case e of Start i _ \<Rightarrow> jobs s i = None | _ \<Rightarrow> True) \<and> freshIds mx (step mx s e) es)"

text \<open>The number of job objects whose status is \<open>running\<close>.\<close>

definition runningCount :: "Worker \<Rightarrow> nat" where
  "runningCount s = length (filter (\<lambda>j. status j = Running) (objs s))"

text \<open>What a response receives when each of the lines is sent to it as a \<open>log\<close> event.\<close>

definition logFrames :: "string list \<Rightarrow> string list" where
  "logFrames ls = concat (map (sendWrites ''log'') ls)"

text \<open>
  The log calls that the logger hands to the sink of the job object \<open>r\<close>: those made under
  a binding for which the sink registered in \<open>logSinks\<close> is the sink of that object.
\<close>

fun routedTo :: "Worker \<Rightarrow> nat \<Rightarrow> Event \<Rightarrow> bool" where
  "routedTo s r (Print (Some i) _ _ _) = (logSinks s i = Some r)"
| "routedTo s r _ = False"

section \<open>Invariants of the worker's state\<close>

text \<open>
  Every member of a listener set is a live response of that very job, and what was written
  to it is the job's whole log, one \<open>log\<close> event for each line, in the order of the log.
\<close>

definition listenersOk :: "Worker \<Rightarrow> bool" where
  "listenersOk s =
     (\<forall>r < length (objs s).
        distinct (listeners (objs s ! r)) \<and>
        (\<forall>c \<in> set (listeners (objs s ! r)).
           c < length (conns s) \<and> owner (conns s ! c) = r \<and> \<not> ended (conns s ! c) \<and>
           written (conns s ! c) = logFrames (logs (objs s ! r))))"

text \<open>The registry and the sinks refer to objects of the heap, under the objects' own ids.\<close>

definition refsOk :: "Worker \<Rightarrow> bool" where
  "refsOk s =
     ((\<forall>i r. jobs s i = Some r \<longrightarrow> r < length (objs s) \<and> job_id (objs s ! r) = i) \<and>
      (\<forall>i r. logSinks s i = Some r \<longrightarrow> r < length (objs s) \<and> job_id (objs s ! r) = i))"

text \<open>
  A job is \<open>running\<close> exactly while its promise chain is pending, and a chain that has
  finished has no sink.
\<close>

definition phasesOk :: "Worker \<Rightarrow> bool" where
  "phasesOk s =
     ((\<forall>r < length (objs s).
         tasks s r \<noteq> NoTask \<and> ((status (objs s ! r) = Running) = (tasks s r = Pending))) \<and>
      (\<forall>i r. logSinks s i = Some r \<longrightarrow> tasks s r \<noteq> Finished))"

definition wellFormed :: "Worker \<Rightarrow> bool" where
  "wellFormed s = (listenersOk s \<and> refsOk s \<and> phasesOk s)"

text \<open>
  With fresh ids every job object is the registry's entry for its id, the id of a
  running job is in \<open>runningJobs\<close>, and \<open>runningJobs\<close> holds registered ids, each once.
\<close>

definition registryOk :: "Worker \<Rightarrow> bool" where
  "registryOk s =
     ((\<forall>r < length (objs s). jobs s (job_id (objs s ! r)) = Some r) \<and>
      (\<forall>r < length (objs s). status (objs s ! r) = Running
          \<longrightarrow> job_id (objs s ! r) \<in> set (runningJobs s)) \<and>
      (\<forall>i \<in> set (runningJobs s). jobs s i \<noteq> None) \<and>
      distinct (runningJobs s))"

section \<open>Polling\<close>

text \<open>
  Modelled from the spec: the worker's handler of \<open>GET /jobs/:id/logs\<close> is not among the
  sources; the web route that forwards to it and the dashboard that polls it are. The spec:
  a request carries an offset (the count of lines the client has seen); the response returns
  every line from the offset onward, a \<open>nextOffset\<close> equal to the new total line count, and
  the job's current status; \<open>NotFound\<close> if the id is unknown.
\<close>

datatype PollReply =
    PollNotFound
  | PollOk (lines: "string list") (nextOffset: nat) (jobStatus: JobStatus)

definition pollLogs :: "string \<Rightarrow> nat \<Rightarrow> Worker \<Rightarrow> PollReply" where
  "pollLogs i off s =
     (case jobs s i of
        None \<Rightarrow> PollNotFound
      | Some r \<Rightarrow>
          PollOk (drop off (logs (objs s ! r))) (length (logs (objs s ! r))) (status (objs s ! r)))"

text \<open>
  The web route \<open>GET /api/jobs/[id]/logs\<close>: 500 when no worker URL is configured, 401 when
  \<open>requireUser\<close> throws, and otherwise the worker's status and payload as they came (the
  \<open>offset\<close> parameter is passed to the worker as it was given).
\<close>

datatype 'a RouteReply = RouteError nat | Relayed nat 'a

definition logsRoute :: "bool \<Rightarrow> bool \<Rightarrow> nat \<times> 'a \<Rightarrow> 'a RouteReply" where
  "logsRoute configured authorized response =
     (if \<not> configured then RouteError 500
      else if \<not> authorized then RouteError 401
      else Relayed (fst response) (snd response))"

fun pollStatus :: "PollReply \<Rightarrow> nat" where
  "pollStatus PollNotFound = 404"
| "pollStatus (PollOk _ _ _) = 200"

text \<open>
  Modelled from the spec: a client that always resumes from the last returned
  \<open>nextOffset\<close>. It keeps the offset and the lines it has been shown so far.
\<close>

record PollClient =
  offset :: nat
  seen :: "string list"

definition clientPoll :: "string \<Rightarrow> Worker \<Rightarrow> PollClient \<Rightarrow> PollClient" where
  "clientPoll i s c =
     (case pollLogs i (offset c) s of
        PollNotFound \<Rightarrow> c
      | PollOk ls n st \<Rightarrow> \<lparr>offset = n, seen = seen c @ ls\<rparr>)"

datatype Moment = Sys Event | Poll

fun pollRun :: "JsNumber \<Rightarrow> string \<Rightarrow> Worker \<Rightarrow> PollClient \<Rightarrow> Moment list \<Rightarrow> Worker \<times> PollClient" where
  "pollRun mx i s c [] = (s, c)"
| "pollRun mx i s c (Sys e # ms) = pollRun mx i (step mx s e) c ms"
| "pollRun mx i s c (Poll # ms) = pollRun mx i s (clientPoll i s c) ms"

fun sysEvents :: "Moment list \<Rightarrow> Event list" where
  "sysEvents [] = []"
| "sysEvents (Sys e # ms) = e # sysEvents ms"
| "sysEvents (Poll # ms) = sysEvents ms"

section \<open>Example inputs\<close>

definition credentials :: StartRequest where
  "credentials = \<lparr>email = Some ''user@example.org'', password = Some ''secret''\<rparr>"

section \<open>The configured ceiling\<close>

text \<open>The two comparisons of a count with the ceiling.\<close>

lemma greaterEq_ceiling:
  "greaterEq mx (Finite a) = ((\<exists>m. mx = Finite m \<and> a \<le> m) \<or> mx = PosInfinity)"
  by (cases mx) (auto simp: greaterEq_def)

lemma greaterEq_count:
  "greaterEq (Finite a) mx = ((\<exists>m. mx = Finite m \<and> m \<le> a) \<or> mx = NegInfinity)"
  by (cases mx) (auto simp: greaterEq_def)

lemma greaterEq_Finite [simp]: "greaterEq (Finite a) (Finite b) = (b \<le> a)"
  by (auto simp: greaterEq_def)


lemma maxConcurrentJobs_cases:
  "(\<exists>m. maxConcurrentJobs env = Finite m \<and> 1 \<le> m) \<or> maxConcurrentJobs env = PosInfinity"
proof (cases "parseInt10 (case env of None \<Rightarrow> ''3'' | Some v \<Rightarrow> v)")
  case (Finite z)
  then show ?thesis by (cases "z < 1") (simp_all add: maxConcurrentJobs_def)
qed (simp_all add: maxConcurrentJobs_def)

lemma bitLength_bounds: "0 < n \<Longrightarrow> 2 ^ (bitLength n - 1) \<le> n \<and> n < 2 ^ bitLength n"
proof (induction n rule: bitLength.induct)
  case (1 n)
  show ?case
  proof (cases "n = 1")
    case True
    then show ?thesis by (simp add: bitLength.simps [of 1] bitLength.simps [of 0])
  next
    case False
    with 1(2) have h: "0 < n div 2" by simp
    from 1(2) have "\<not> n \<le> 0" by simp
    from 1(1) [OF this h] have ih: "2 ^ (bitLength (n div 2) - 1) \<le> n div 2" "n div 2 < 2 ^ bitLength (n div 2)"
      by simp_all
    from h have "0 < bitLength (n div 2)" by (simp add: bitLength.simps [of "n div 2"])
    then obtain k where k: "bitLength (n div 2) = Suc k" by (cases "bitLength (n div 2)") simp_all
    from 1(2) have b: "bitLength n = Suc (Suc k)" by (simp add: bitLength.simps [of n] k)
    from ih k have "2 ^ k \<le> n div 2" "n div 2 < 2 * 2 ^ k" by simp_all
    then have "2 * 2 ^ k \<le> n" "n < 2 * (2 * 2 ^ k)" by linarith+
    then show ?thesis by (simp add: b)
  qed
qed

lemma roundToDouble_small: "n < 2 ^ 53 \<Longrightarrow> roundToDouble n = n"
  by (simp add: roundToDouble_def)

lemma roundToDouble_large:
  assumes "2 ^ 53 \<le> n"
  shows "2 ^ (bitLength n - 1) \<le> roundToDouble n"
proof -
  have "(0::int) < 2 ^ 53" by simp
  with assms have pos: "0 < n" by linarith
  note b = bitLength_bounds [OF pos]
  define e where "e = bitLength n - 53"
  have lt: "(2::int) ^ 53 < 2 ^ bitLength n" using assms b by linarith
  have "53 < bitLength n" by (rule power_less_imp_less_exp [OF _ lt]) simp
  then have bl: "bitLength n - 1 = 52 + e" by (simp add: e_def)
  have "(2::int) ^ 52 * 2 ^ e \<le> n" using b bl by (simp add: power_add)
  then have "(2::int) ^ 52 * 2 ^ e div 2 ^ e \<le> n div 2 ^ e"
    by (rule zdiv_mono1) simp
  then have q: "2 ^ 52 \<le> n div 2 ^ e" by simp
  define q' where "q' = (if 2 ^ e < 2 * (n mod 2 ^ e) \<or> (2 * (n mod 2 ^ e) = 2 ^ e \<and> odd (n div 2 ^ e))
                         then n div 2 ^ e + 1 else n div 2 ^ e)"
  from q have q': "2 ^ 52 \<le> q'" by (simp add: q'_def)
  have r: "roundToDouble n = q' * 2 ^ e"
    using assms by (simp add: roundToDouble_def Let_def e_def q'_def)
  have "(2::int) ^ 52 * 2 ^ e \<le> q' * 2 ^ e"
    by (rule mult_right_mono [OF q']) simp
  moreover have "(2::int) ^ (bitLength n - 1) = 2 ^ 52 * 2 ^ e"
    by (simp only: bl power_add)
  ultimately show ?thesis using r by linarith
qed

lemma roundToDouble_huge:
  assumes "2 ^ 1024 \<le> n"
  shows "2 ^ 1024 \<le> roundToDouble n"
proof -
  have "(2::int) ^ 53 \<le> 2 ^ 1024" by (rule power_increasing) simp_all
  with assms have big: "2 ^ 53 \<le> n" by linarith
  have "(0::int) < 2 ^ 53" by simp
  with big have pos: "0 < n" by linarith
  from bitLength_bounds [OF pos] assms have lt: "(2::int) ^ 1024 < 2 ^ bitLength n" by linarith
  have "1024 < bitLength n" by (rule power_less_imp_less_exp [OF _ lt]) simp
  then have "(2::int) ^ 1024 \<le> 2 ^ (bitLength n - 1)" by (intro power_increasing) simp_all
  with roundToDouble_large [OF big] show ?thesis by linarith
qed


lemma roundToDouble_pos:
  assumes "1 \<le> n"
  shows "1 \<le> roundToDouble n"
proof (cases "n < 2 ^ 53")
  case True
  with assms show ?thesis by (simp add: roundToDouble_def)
next
  case False
  then have "2 ^ 53 \<le> n" by simp
  from roundToDouble_large [OF this] have "2 ^ (bitLength n - 1) \<le> roundToDouble n" .
  moreover have "(1::int) \<le> 2 ^ (bitLength n - 1)" by simp
  ultimately show ?thesis by linarith
qed

lemma roundToDouble_nearest:
  assumes "2 ^ 53 \<le> n"
  shows "2 * \<bar>roundToDouble n - n\<bar> \<le> 2 ^ (bitLength n - 53)"
    and "2 ^ (bitLength n - 53) dvd roundToDouble n"
proof -
  define e where "e = bitLength n - 53"
  define p :: int where "p = 2 ^ e"
  define q where "q = n div p"
  define r where "r = n mod p"
  have p: "0 < p" by (simp add: p_def)
  then have r: "0 \<le> r" "r < p" by (simp_all add: r_def)
  have n: "n = q * p + r" by (simp add: q_def r_def)
  define R where "R = roundToDouble n"
  have rd: "R = (if p < 2 * r \<or> (2 * r = p \<and> odd q) then q + 1 else q) * p"
    using assms by (simp add: R_def roundToDouble_def Let_def e_def p_def q_def r_def)
  have "p dvd R" unfolding rd by simp
  then show "2 ^ (bitLength n - 53) dvd roundToDouble n"
    by (simp add: R_def p_def e_def)
  have "2 * \<bar>R - n\<bar> \<le> p"
  proof (cases "p < 2 * r \<or> (2 * r = p \<and> odd q)")
    case True
    then have "R = (q + 1) * p" by (simp add: rd)
    with n have "R - n = p - r" by (simp add: algebra_simps)
    with True r show ?thesis by auto
  next
    case False
    then have "R = q * p" by (auto simp: rd)
    with n have "R - n = - r" by simp
    with False r show ?thesis by auto
  qed
  then show "2 * \<bar>roundToDouble n - n\<bar> \<le> 2 ^ (bitLength n - 53)"
    by (simp add: R_def p_def e_def)
qed

lemma isDigit_not_space: "isDigit c \<Longrightarrow> \<not> isWhiteSpace c"
  by (auto simp: isDigit_def isWhiteSpace_def)

lemma isDigit_not_sign: "isDigit c \<Longrightarrow> c \<noteq> CHR ''-'' \<and> c \<noteq> CHR ''+''"
  by (auto simp: isDigit_def)

lemma digitsFold_nonneg:
  "\<forall>c \<in> set ds. isDigit c \<Longrightarrow> 0 \<le> a \<Longrightarrow> 0 \<le> foldl (\<lambda>acc c. 10 * acc + digitValue c) a ds"
proof (induction ds arbitrary: a)
  case Nil
  then show ?case by simp
next
  case (Cons d ds)
  from Cons.prems have "0 \<le> digitValue d" by (simp add: isDigit_def digitValue_def)
  with Cons.prems have "0 \<le> 10 * a + digitValue d" by simp
  with Cons.prems show ?case by (simp add: Cons.IH)
qed

lemma parseInt10_digits:
  assumes "ds \<noteq> []" and "\<forall>c \<in> set ds. isDigit c"
  shows "parseInt10 ds = toNumber (digitsValue ds)"
proof -
  from assms obtain d rest where ds: "ds = d # rest" by (cases ds) simp_all
  with assms(2) have d: "isDigit d" by simp
  have a: "dropWhile isWhiteSpace ds = ds"
    using d by (simp add: ds isDigit_not_space)
  have b: "takeWhile isDigit ds = ds"
    using assms(2) by (simp add: takeWhile_eq_all_conv)
  from isDigit_not_sign [OF d] a b assms(1) show ?thesis
    by (simp add: parseInt10_def ds)
qed

lemma toNumber_nonneg:
  "0 \<le> z \<Longrightarrow> toNumber z = (if 2 ^ 1024 \<le> roundToDouble z then PosInfinity else Finite (roundToDouble z))"
  by (simp add: toNumber_def Let_def)

lemma maxConcurrentJobs_digits:
  assumes "ds \<noteq> []" and "\<forall>c \<in> set ds. isDigit c" and "1 \<le> digitsValue ds"
  shows "maxConcurrentJobs (Some ds)
         = (if 2 ^ 1024 \<le> roundToDouble (digitsValue ds) then PosInfinity
            else Finite (roundToDouble (digitsValue ds)))"
proof -
  from assms(3) have nn: "0 \<le> digitsValue ds" by simp
  from roundToDouble_pos [OF assms(3)] have "\<not> roundToDouble (digitsValue ds) < 1" by simp
  then show ?thesis
    by (simp add: maxConcurrentJobs_def parseInt10_digits [OF assms(1,2)] toNumber_nonneg [OF nn])
qed

lemma digitsFold_zeros:
  "foldl (\<lambda>acc c. 10 * acc + digitValue c) a (replicate k (CHR ''0'')) = a * 10 ^ k"
  by (induction k arbitrary: a) (simp_all add: digitValue_def)

lemma digitsValue_power: "digitsValue (CHR ''1'' # replicate k (CHR ''0'')) = 10 ^ k"
  by (simp add: digitsValue_def digitsFold_zeros) (simp add: digitValue_def)

lemma power_ten_huge: "(2::int) ^ 1024 \<le> 10 ^ 309"
  by simp


lemma maxConcurrentJobs_absent: "maxConcurrentJobs None = Finite 3"
  by (simp add: maxConcurrentJobs_def parseInt10_def isWhiteSpace_def isDigit_def
      digitsValue_def digitValue_def toNumber_def roundToDouble_def)

text \<open>
  Claim C9 as stated does not hold: the ceiling is not always an integer. For the value
  made of the digit 1 and 309 zeros, \<open>Number.parseInt\<close> returns \<open>Infinity\<close>, which is
  neither \<open>NaN\<close> nor below 1, so the ceiling is \<open>Infinity\<close>.
\<close>

theorem ceiling_infinity_counterexample:
  "parseInt10 (CHR ''1'' # replicate 309 (CHR ''0'')) = PosInfinity
   \<and> maxConcurrentJobs (Some (CHR ''1'' # replicate 309 (CHR ''0''))) = PosInfinity"
proof -
  let ?ds = "CHR ''1'' # replicate 309 (CHR ''0'')"
  have ne: "?ds \<noteq> []" by simp
  have dg: "\<forall>c \<in> set ?ds. isDigit c" by (simp add: isDigit_def)
  have v: "digitsValue ?ds = 10 ^ 309" by (rule digitsValue_power)
  have big: "2 ^ 1024 \<le> digitsValue ?ds" unfolding v by (rule power_ten_huge)
  have "(1::int) \<le> 2 ^ 1024" by (rule one_le_power) simp
  with big have one: "1 \<le> digitsValue ?ds" by linarith
  from big have nn: "0 \<le> digitsValue ?ds" using one by linarith
  note r = roundToDouble_huge [OF big]
  have "parseInt10 ?ds = PosInfinity"
    using r by (simp only: parseInt10_digits [OF ne dg] toNumber_nonneg [OF nn] if_True)
  moreover have "maxConcurrentJobs (Some ?ds) = PosInfinity"
    using r by (simp only: maxConcurrentJobs_digits [OF ne dg one] if_True)
  ultimately show ?thesis by blast
qed

text \<open>
  Claim C9, amended. Whatever the environment variable holds, the ceiling used by admission
  control is an integer that is at least 1, or \<open>Infinity\<close>. An absent variable gives 3; a
  value that \<open>Number.parseInt\<close> reads as \<open>NaN\<close> or as a number below 1 gives 1; every other
  value gives the number \<open>Number.parseInt\<close> returns. For a value made of decimal digits
  only, of integer reading \<open>n\<close> at least 1, that number is the double nearest to \<open>n\<close>: \<open>n\<close>
  itself below \<open>2^53\<close>, above it a multiple of \<open>2^(k - 53)\<close> no further from \<open>n\<close> than half
  of \<open>2^(k - 53)\<close>, where \<open>k\<close> is the number of binary digits of \<open>n\<close>, and \<open>Infinity\<close> when
  the rounded value reaches \<open>2^1024\<close>, as it does for every \<open>n\<close> from \<open>2^1024\<close> on.
\<close>

theorem maxConcurrentJobs_ceiling:
  "((\<exists>m. maxConcurrentJobs env = Finite m \<and> 1 \<le> m) \<or> maxConcurrentJobs env = PosInfinity)
   \<and> maxConcurrentJobs None = Finite 3
   \<and> (isNaN (parseInt10 v) \<or> lessThan (parseInt10 v) (Finite 1)
        \<longrightarrow> maxConcurrentJobs (Some v) = Finite 1)
   \<and> (\<not> isNaN (parseInt10 w) \<and> \<not> lessThan (parseInt10 w) (Finite 1)
        \<longrightarrow> maxConcurrentJobs (Some w) = parseInt10 w)
   \<and> (ds \<noteq> [] \<and> (\<forall>c \<in> set ds. isDigit c) \<and> 1 \<le> digitsValue ds
        \<longrightarrow> maxConcurrentJobs (Some ds)
              = (if 2 ^ 1024 \<le> roundToDouble (digitsValue ds) then PosInfinity
                 else Finite (roundToDouble (digitsValue ds)))
            \<and> (digitsValue ds < 2 ^ 53 \<longrightarrow> roundToDouble (digitsValue ds) = digitsValue ds)
            \<and> (2 ^ 53 \<le> digitsValue ds
                 \<longrightarrow> 2 ^ (bitLength (digitsValue ds) - 53) dvd roundToDouble (digitsValue ds)
                   \<and> 2 * \<bar>roundToDouble (digitsValue ds) - digitsValue ds\<bar>
                       \<le> 2 ^ (bitLength (digitsValue ds) - 53))
            \<and> (2 ^ 1024 \<le> digitsValue ds \<longrightarrow> maxConcurrentJobs (Some ds) = PosInfinity))"
proof -
  have 1: "(\<exists>m. maxConcurrentJobs env = Finite m \<and> 1 \<le> m) \<or> maxConcurrentJobs env = PosInfinity"
    by (rule maxConcurrentJobs_cases)
  have 2: "maxConcurrentJobs None = Finite 3"
    by (rule maxConcurrentJobs_absent)
  have 3: "isNaN (parseInt10 v) \<or> lessThan (parseInt10 v) (Finite 1)
        \<longrightarrow> maxConcurrentJobs (Some v) = Finite 1"
    by (simp add: maxConcurrentJobs_def)
  have 4: "\<not> isNaN (parseInt10 w) \<and> \<not> lessThan (parseInt10 w) (Finite 1)
        \<longrightarrow> maxConcurrentJobs (Some w) = parseInt10 w"
    by (simp add: maxConcurrentJobs_def)
  have 5: "maxConcurrentJobs (Some ds)
              = (if 2 ^ 1024 \<le> roundToDouble (digitsValue ds) then PosInfinity
                 else Finite (roundToDouble (digitsValue ds)))
            \<and> (digitsValue ds < 2 ^ 53 \<longrightarrow> roundToDouble (digitsValue ds) = digitsValue ds)
            \<and> (2 ^ 53 \<le> digitsValue ds
                 \<longrightarrow> 2 ^ (bitLength (digitsValue ds) - 53) dvd roundToDouble (digitsValue ds)
                   \<and> 2 * \<bar>roundToDouble (digitsValue ds) - digitsValue ds\<bar>
                       \<le> 2 ^ (bitLength (digitsValue ds) - 53))
            \<and> (2 ^ 1024 \<le> digitsValue ds \<longrightarrow> maxConcurrentJobs (Some ds) = PosInfinity)"
    if h: "ds \<noteq> [] \<and> (\<forall>c \<in> set ds. isDigit c) \<and> 1 \<le> digitsValue ds"
  proof -
    from h have ne: "ds \<noteq> []" and dg: "\<forall>c \<in> set ds. isDigit c" and one: "1 \<le> digitsValue ds"
      by blast+
    note m = maxConcurrentJobs_digits [OF ne dg one]
    have a: "digitsValue ds < 2 ^ 53 \<longrightarrow> roundToDouble (digitsValue ds) = digitsValue ds"
      using roundToDouble_small [of "digitsValue ds"] by blast
    have b: "2 ^ 53 \<le> digitsValue ds
                 \<longrightarrow> 2 ^ (bitLength (digitsValue ds) - 53) dvd roundToDouble (digitsValue ds)
                   \<and> 2 * \<bar>roundToDouble (digitsValue ds) - digitsValue ds\<bar>
                       \<le> 2 ^ (bitLength (digitsValue ds) - 53)"
      using roundToDouble_nearest [of "digitsValue ds"] by blast
    have c: "2 ^ 1024 \<le> digitsValue ds \<longrightarrow> maxConcurrentJobs (Some ds) = PosInfinity"
    proof
      assume "2 ^ 1024 \<le> digitsValue ds"
      from roundToDouble_huge [OF this] show "maxConcurrentJobs (Some ds) = PosInfinity"
        by (simp only: m if_True)
    qed
    from m a b c show ?thesis by blast
  qed
  from 1 2 3 4 5 show ?thesis by blast
qed

lemma parsed_examples:
  "parseInt10 ''many'' = NaN"
  "parseInt10 ''-2 jobs'' = Finite (- 2)"
  "parseInt10 ''0'' = Finite 0"
  "parseInt10 '' 42abc'' = Finite 42"
  by (simp_all add: parseInt10_def isWhiteSpace_def isDigit_def digitsValue_def digitValue_def
      toNumber_def roundToDouble_def)

lemma digits_examples:
  "digitsValue ''42'' = 42"
  "digitsValue ''9007199254740993'' = 9007199254740993"
  "\<forall>c \<in> set ''42''. isDigit c"
  "\<forall>c \<in> set ''9007199254740993''. isDigit c"
  "roundToDouble 9007199254740993 = 9007199254740992"
  "bitLength 9007199254740993 = 54"
  by (simp_all add: digitsValue_def digitValue_def isDigit_def roundToDouble_def bitLength.simps
      Let_def)

theorem maxConcurrentJobs_ceiling_witness:
  "maxConcurrentJobs (Some ''many'') = Finite 1
   \<and> maxConcurrentJobs (Some ''-2 jobs'') = Finite 1
   \<and> maxConcurrentJobs (Some ''0'') = Finite 1
   \<and> maxConcurrentJobs (Some '' 42abc'') = Finite 42
   \<and> maxConcurrentJobs (Some ''42'') = Finite 42
   \<and> maxConcurrentJobs (Some ''9007199254740993'') = Finite 9007199254740992
   \<and> maxConcurrentJobs (Some (CHR ''1'' # replicate 309 (CHR ''0''))) = PosInfinity"
proof -
  let ?big = "CHR ''1'' # replicate 309 (CHR ''0'')"
  note a = maxConcurrentJobs_ceiling
    [where env = None and v = "''many''" and w = "'' 42abc''" and ds = "''42''"]
  note b = maxConcurrentJobs_ceiling
    [where env = None and v = "''-2 jobs''" and w = "'' 42abc''" and ds = "''9007199254740993''"]
  note c = maxConcurrentJobs_ceiling
    [where env = None and v = "''0''" and w = "'' 42abc''" and ds = ?big]
  have 1: "maxConcurrentJobs (Some ''many'') = Finite 1"
    using a by (simp add: parsed_examples)
  have 2: "maxConcurrentJobs (Some ''-2 jobs'') = Finite 1"
    using b by (simp add: parsed_examples)
  have 3: "maxConcurrentJobs (Some ''0'') = Finite 1"
    using c by (simp add: parsed_examples)
  have 4: "maxConcurrentJobs (Some '' 42abc'') = Finite 42"
    using a by (simp add: parsed_examples)
  from a have "''42'' \<noteq> [] \<and> (\<forall>c \<in> set ''42''. isDigit c) \<and> 1 \<le> digitsValue ''42''
      \<longrightarrow> maxConcurrentJobs (Some ''42'')
              = (if 2 ^ 1024 \<le> roundToDouble (digitsValue ''42'') then PosInfinity
                 else Finite (roundToDouble (digitsValue ''42'')))
          \<and> (digitsValue ''42'' < 2 ^ 53 \<longrightarrow> roundToDouble (digitsValue ''42'') = digitsValue ''42'')"
    by blast
  then have 5: "maxConcurrentJobs (Some ''42'') = Finite 42"
    by (simp add: digits_examples)
  from b have "''9007199254740993'' \<noteq> [] \<and> (\<forall>c \<in> set ''9007199254740993''. isDigit c)
        \<and> 1 \<le> digitsValue ''9007199254740993''
      \<longrightarrow> maxConcurrentJobs (Some ''9007199254740993'')
              = (if 2 ^ 1024 \<le> roundToDouble (digitsValue ''9007199254740993'') then PosInfinity
                 else Finite (roundToDouble (digitsValue ''9007199254740993'')))"
    by blast
  then have 6: "maxConcurrentJobs (Some ''9007199254740993'') = Finite 9007199254740992"
    by (simp add: digits_examples)
  from c have i: "?big \<noteq> [] \<and> (\<forall>c \<in> set ?big. isDigit c) \<and> 1 \<le> digitsValue ?big
      \<longrightarrow> (2 ^ 1024 \<le> digitsValue ?big \<longrightarrow> maxConcurrentJobs (Some ?big) = PosInfinity)"
    by blast
  have dg: "\<forall>c \<in> set ?big. isDigit c"
    by (simp add: isDigit_def)
  have big: "2 ^ 1024 \<le> digitsValue ?big"
    by (simp only: digitsValue_power power_ten_huge)
  have "(1::int) \<le> 2 ^ 1024" by (rule one_le_power) simp
  with big have one: "1 \<le> digitsValue ?big" by linarith
  have ne: "?big \<noteq> []" by simp
  from i ne dg one big have 7: "maxConcurrentJobs (Some ?big) = PosInfinity"
    by blast
  from 1 2 3 4 5 6 7 show ?thesis by blast
qed


section \<open>Frame lemmas of the primitives\<close>

text \<open>
  What \<open>send\<close>, \<open>pushLog\<close>, \<open>listener.end\<close> and \<open>pushStatus\<close> change and what they leave
  alone, field by field, and the listener invariant through each of them.
\<close>

lemma updJob_fields [simp]:
  "objs (updJob r f s) = (objs s)[r := f (objs s ! r)]"
  "jobs (updJob r f s) = jobs s"
  "runningJobs (updJob r f s) = runningJobs s"
  "logSinks (updJob r f s) = logSinks s"
  "conns (updJob r f s) = conns s"
  "tasks (updJob r f s) = tasks s"
  "console (updJob r f s) = console s"
  by (simp_all add: updJob_def)

lemma updConn_fields [simp]:
  "objs (updConn c f s) = objs s"
  "jobs (updConn c f s) = jobs s"
  "runningJobs (updConn c f s) = runningJobs s"
  "logSinks (updConn c f s) = logSinks s"
  "conns (updConn c f s) = (conns s)[c := f (conns s ! c)]"
  "tasks (updConn c f s) = tasks s"
  "console (updConn c f s) = console s"
  by (simp_all add: updConn_def)

lemma send_fields [simp]:
  "objs (send c e d s) = objs s"
  "jobs (send c e d s) = jobs s"
  "runningJobs (send c e d s) = runningJobs s"
  "logSinks (send c e d s) = logSinks s"
  "conns (send c e d s) = (conns s)[c := (conns s ! c)\<lparr>written := written (conns s ! c) @ sendWrites e d\<rparr>]"
  "tasks (send c e d s) = tasks s"
  "console (send c e d s) = console s"
  by (simp_all add: send_def)

lemma sendAll_fields [simp]:
  "objs (foldl (\<lambda>t c. send c e d t) s cs) = objs s"
  "jobs (foldl (\<lambda>t c. send c e d t) s cs) = jobs s"
  "runningJobs (foldl (\<lambda>t c. send c e d t) s cs) = runningJobs s"
  "logSinks (foldl (\<lambda>t c. send c e d t) s cs) = logSinks s"
  "tasks (foldl (\<lambda>t c. send c e d t) s cs) = tasks s"
  "console (foldl (\<lambda>t c. send c e d t) s cs) = console s"
  "length (conns (foldl (\<lambda>t c. send c e d t) s cs)) = length (conns s)"
  by (induction cs arbitrary: s; simp)+

lemma sendAll_nth_other:
  "c \<notin> set cs \<Longrightarrow> conns (foldl (\<lambda>t c. send c e d t) s cs) ! c = conns s ! c"
  by (induction cs arbitrary: s) auto

lemma sendAll_nth_member:
  "distinct cs \<Longrightarrow> c \<in> set cs \<Longrightarrow> c < length (conns s) \<Longrightarrow>
   conns (foldl (\<lambda>t c. send c e d t) s cs) ! c
     = (conns s ! c)\<lparr>written := written (conns s ! c) @ sendWrites e d\<rparr>"
proof (induction cs arbitrary: s)
  case Nil
  then show ?case by simp
next
  case (Cons a cs)
  show ?case
  proof (cases "c = a")
    case True
    with Cons.prems have "c \<notin> set cs" by simp
    then have "conns (foldl (\<lambda>t c. send c e d t) (send a e d s) cs) ! c = conns (send a e d s) ! c"
      by (rule sendAll_nth_other)
    with True Cons.prems show ?thesis by simp
  next
    case False
    with Cons.prems have "c \<in> set cs" "distinct cs" "c < length (conns (send a e d s))"
      by simp_all
    from Cons.IH [OF this(2) this(1) this(3)] False show ?thesis by simp
  qed
qed

lemma pushLog_objs:
  "objs (pushLog r line s) = (objs s)[r := (objs s ! r)\<lparr>logs := logs (objs s ! r) @ [line]\<rparr>]"
  by (simp add: pushLog_def Let_def)

lemma pushLog_fields [simp]:
  "jobs (pushLog r line s) = jobs s"
  "runningJobs (pushLog r line s) = runningJobs s"
  "logSinks (pushLog r line s) = logSinks s"
  "tasks (pushLog r line s) = tasks s"
  "console (pushLog r line s) = console s"
  "length (conns (pushLog r line s)) = length (conns s)"
  by (simp_all add: pushLog_def Let_def)

lemma pushLog_conn:
  assumes "r < length (objs s)"
  shows "c \<notin> set (listeners (objs s ! r)) \<Longrightarrow> conns (pushLog r line s) ! c = conns s ! c"
    and "distinct (listeners (objs s ! r)) \<Longrightarrow> c \<in> set (listeners (objs s ! r)) \<Longrightarrow>
         c < length (conns s) \<Longrightarrow>
         conns (pushLog r line s) ! c
           = (conns s ! c)\<lparr>written := written (conns s ! c) @ sendWrites ''log'' line\<rparr>"
  using assms by (simp_all add: pushLog_def Let_def sendAll_nth_other sendAll_nth_member)


lemma listenerEnd_fields [simp]:
  "jobs (listenerEnd c s) = jobs s"
  "runningJobs (listenerEnd c s) = runningJobs s"
  "logSinks (listenerEnd c s) = logSinks s"
  "tasks (listenerEnd c s) = tasks s"
  "console (listenerEnd c s) = console s"
  "length (conns (listenerEnd c s)) = length (conns s)"
  "length (objs (listenerEnd c s)) = length (objs s)"
  by (simp_all add: listenerEnd_def)

lemma closeAll_fields [simp]:
  "jobs (foldl (\<lambda>t c. listenerEnd c (send c e d t)) s cs) = jobs s"
  "runningJobs (foldl (\<lambda>t c. listenerEnd c (send c e d t)) s cs) = runningJobs s"
  "logSinks (foldl (\<lambda>t c. listenerEnd c (send c e d t)) s cs) = logSinks s"
  "tasks (foldl (\<lambda>t c. listenerEnd c (send c e d t)) s cs) = tasks s"
  "console (foldl (\<lambda>t c. listenerEnd c (send c e d t)) s cs) = console s"
  "length (conns (foldl (\<lambda>t c. listenerEnd c (send c e d t)) s cs)) = length (conns s)"
  "length (objs (foldl (\<lambda>t c. listenerEnd c (send c e d t)) s cs)) = length (objs s)"
  by (induction cs arbitrary: s; simp)+

lemma pushStatus_terminated:
  "pushStatus r ''terminated'' s
     = foldl (\<lambda>t c. listenerEnd c (send c ''status'' ''terminated'' t)) s (listeners (objs s ! r))"
  by (simp add: pushStatus_def Let_def)

lemma closeOne:
  assumes "a < length (conns s)" "\<not> ended (conns s ! a)"
  shows "listenerEnd a (send a e d s)
           = updJob (owner (conns s ! a)) (\<lambda>j. j\<lparr>listeners := setDelete a (listeners j)\<rparr>)
               (updConn a (\<lambda>l. l\<lparr>written := written l @ sendWrites e d, ended := True\<rparr>) s)"
  using assms by (simp add: listenerEnd_def send_def updConn_def updJob_def)

lemma filter_removeAll_notin:
  "filter (\<lambda>c. c \<notin> set cs) (removeAll a xs) = filter (\<lambda>c. c \<notin> set (a # cs)) xs"
  by (induction xs) auto

lemma closeAll:
  assumes "distinct cs" "r < length (objs s)"
    and "\<forall>c\<in>set cs. c < length (conns s) \<and> owner (conns s ! c) = r \<and> \<not> ended (conns s ! c)"
  shows "objs (foldl (\<lambda>t c. listenerEnd c (send c e d t)) s cs)
           = (objs s)[r := (objs s ! r)\<lparr>listeners := filter (\<lambda>c. c \<notin> set cs) (listeners (objs s ! r))\<rparr>]
         \<and> (\<forall>c. c \<notin> set cs \<longrightarrow>
               conns (foldl (\<lambda>t c. listenerEnd c (send c e d t)) s cs) ! c = conns s ! c)
         \<and> (\<forall>c\<in>set cs.
               conns (foldl (\<lambda>t c. listenerEnd c (send c e d t)) s cs) ! c
                 = (conns s ! c)\<lparr>written := written (conns s ! c) @ sendWrites e d, ended := True\<rparr>)"
  using assms
proof (induction cs arbitrary: s)
  case Nil
  then show ?case by (simp add: list_update_same_conv)
next
  case (Cons a cs)
  let ?s' = "listenerEnd a (send a e d s)"
  from Cons.prems have a: "a < length (conns s)" "owner (conns s ! a) = r" "\<not> ended (conns s ! a)"
    and na: "a \<notin> set cs" and d: "distinct cs"
    by simp_all
  have s': "?s' = updJob r (\<lambda>j. j\<lparr>listeners := setDelete a (listeners j)\<rparr>)
               (updConn a (\<lambda>l. l\<lparr>written := written l @ sendWrites e d, ended := True\<rparr>) s)"
    using closeOne [OF a(1) a(3)] a(2) by simp
  have pre: "\<forall>c\<in>set cs. c < length (conns ?s') \<and> owner (conns ?s' ! c) = r \<and> \<not> ended (conns ?s' ! c)"
  proof
    fix c assume c: "c \<in> set cs"
    with na have "c \<noteq> a" by auto
    with c Cons.prems(3) show "c < length (conns ?s') \<and> owner (conns ?s' ! c) = r \<and> \<not> ended (conns ?s' ! c)"
      by (simp add: s')
  qed
  have r': "r < length (objs ?s')" using Cons.prems by (simp add: s')
  note ih = Cons.IH [OF d r' pre]
  have o: "objs ?s' = (objs s)[r := (objs s ! r)\<lparr>listeners := removeAll a (listeners (objs s ! r))\<rparr>]"
    by (simp add: s' setDelete_def)
  have f: "filter (\<lambda>c. c \<notin> set cs) (removeAll a (listeners (objs s ! r)))
             = filter (\<lambda>c. c \<notin> set (a # cs)) (listeners (objs s ! r))"
    by (rule filter_removeAll_notin)
  have 1: "objs (foldl (\<lambda>t c. listenerEnd c (send c e d t)) s (a # cs))
           = (objs s)[r := (objs s ! r)\<lparr>listeners := filter (\<lambda>c. c \<notin> set (a # cs)) (listeners (objs s ! r))\<rparr>]"
    using ih Cons.prems(2) by (simp add: o f del: set_simps)
  have 2: "\<forall>c. c \<notin> set (a # cs) \<longrightarrow>
               conns (foldl (\<lambda>t c. listenerEnd c (send c e d t)) s (a # cs)) ! c = conns s ! c"
    using ih by (auto simp: s')
  have 3: "\<forall>c\<in>set (a # cs).
               conns (foldl (\<lambda>t c. listenerEnd c (send c e d t)) s (a # cs)) ! c
                 = (conns s ! c)\<lparr>written := written (conns s ! c) @ sendWrites e d, ended := True\<rparr>"
  proof
    fix c assume "c \<in> set (a # cs)"
    then consider "c = a" | "c \<in> set cs" "c \<noteq> a" using na by auto
    then show "conns (foldl (\<lambda>t c. listenerEnd c (send c e d t)) s (a # cs)) ! c
                 = (conns s ! c)\<lparr>written := written (conns s ! c) @ sendWrites e d, ended := True\<rparr>"
    proof cases
      case 1
      with ih na a show ?thesis by (simp add: s')
    next
      case 2
      with ih show ?thesis by (simp add: s')
    qed
  qed
  from 1 2 3 show ?case by blast
qed

lemma nth_update_frame:
  "(\<And>x. f (g x) = f x) \<Longrightarrow> f (xs[r := g (xs ! r)] ! k) = f (xs ! k)"
  by (cases "r < length xs"; cases "k = r"; simp add: list_update_beyond)

lemma pushLog_frame [simp]:
  "length (objs (pushLog r line s)) = length (objs s)"
  "job_id (objs (pushLog r line s) ! k) = job_id (objs s ! k)"
  "status (objs (pushLog r line s) ! k) = status (objs s ! k)"
  "aborted (objs (pushLog r line s) ! k) = aborted (objs s ! k)"
  "listeners (objs (pushLog r line s) ! k) = listeners (objs s ! k)"
  by (simp_all add: pushLog_objs nth_update_frame)

lemma pushLog_logs:
  "r < length (objs s) \<Longrightarrow> logs (objs (pushLog r line s) ! r) = logs (objs s ! r) @ [line]"
  "k \<noteq> r \<Longrightarrow> logs (objs (pushLog r line s) ! k) = logs (objs s ! k)"
  by (simp_all add: pushLog_objs)

lemma listenerEnd_frame [simp]:
  "job_id (objs (listenerEnd c s) ! k) = job_id (objs s ! k)"
  "status (objs (listenerEnd c s) ! k) = status (objs s ! k)"
  "aborted (objs (listenerEnd c s) ! k) = aborted (objs s ! k)"
  "logs (objs (listenerEnd c s) ! k) = logs (objs s ! k)"
  by (simp_all add: listenerEnd_def nth_update_frame)

lemma closeAll_frame [simp]:
  "job_id (objs (foldl (\<lambda>t c. listenerEnd c (send c e d t)) s cs) ! k) = job_id (objs s ! k)"
  "status (objs (foldl (\<lambda>t c. listenerEnd c (send c e d t)) s cs) ! k) = status (objs s ! k)"
  "aborted (objs (foldl (\<lambda>t c. listenerEnd c (send c e d t)) s cs) ! k) = aborted (objs s ! k)"
  "logs (objs (foldl (\<lambda>t c. listenerEnd c (send c e d t)) s cs) ! k) = logs (objs s ! k)"
  by (induction cs arbitrary: s; simp)+

lemma pushStatus_fields [simp]:
  "jobs (pushStatus r ''terminated'' s) = jobs s"
  "runningJobs (pushStatus r ''terminated'' s) = runningJobs s"
  "logSinks (pushStatus r ''terminated'' s) = logSinks s"
  "tasks (pushStatus r ''terminated'' s) = tasks s"
  "console (pushStatus r ''terminated'' s) = console s"
  "length (conns (pushStatus r ''terminated'' s)) = length (conns s)"
  "length (objs (pushStatus r ''terminated'' s)) = length (objs s)"
  "job_id (objs (pushStatus r ''terminated'' s) ! k) = job_id (objs s ! k)"
  "status (objs (pushStatus r ''terminated'' s) ! k) = status (objs s ! k)"
  "aborted (objs (pushStatus r ''terminated'' s) ! k) = aborted (objs s ! k)"
  "logs (objs (pushStatus r ''terminated'' s) ! k) = logs (objs s ! k)"
  by (simp_all add: pushStatus_terminated)

lemma logFrames_snoc: "logFrames (ls @ [l]) = logFrames ls @ sendWrites ''log'' l"
  by (simp add: logFrames_def)

lemma listenersOk_pushLog:
  assumes ok: "listenersOk s" and r: "r < length (objs s)"
  shows "listenersOk (pushLog r line s)"
  unfolding listenersOk_def
proof (intro allI impI conjI ballI)
  fix k assume "k < length (objs (pushLog r line s))"
  then have k: "k < length (objs s)" by simp
  from ok k show "distinct (listeners (objs (pushLog r line s) ! k))"
    by (simp add: listenersOk_def)
  fix c assume "c \<in> set (listeners (objs (pushLog r line s) ! k))"
  then have c: "c \<in> set (listeners (objs s ! k))" by simp
  with ok k have f: "c < length (conns s)" "owner (conns s ! c) = k" "\<not> ended (conns s ! c)"
    "written (conns s ! c) = logFrames (logs (objs s ! k))"
    by (simp_all add: listenersOk_def)
  from ok r have d: "distinct (listeners (objs s ! r))" by (simp add: listenersOk_def)
  show "c < length (conns (pushLog r line s))" using f by simp
  have cases: "conns (pushLog r line s) ! c
      = (if k = r then (conns s ! c)\<lparr>written := written (conns s ! c) @ sendWrites ''log'' line\<rparr>
         else conns s ! c)"
  proof (cases "k = r")
    case True
    with c d f r show ?thesis by (simp add: pushLog_conn)
  next
    case False
    have "c \<notin> set (listeners (objs s ! r))"
    proof
      assume "c \<in> set (listeners (objs s ! r))"
      with ok r have "owner (conns s ! c) = r" by (simp add: listenersOk_def)
      with f False show False by simp
    qed
    with r False show ?thesis by (simp add: pushLog_conn)
  qed
  show "owner (conns (pushLog r line s) ! c) = k" using f cases by simp
  show "\<not> ended (conns (pushLog r line s) ! c)" using f cases by simp
  show "written (conns (pushLog r line s) ! c) = logFrames (logs (objs (pushLog r line s) ! k))"
    using f cases r by (cases "k = r") (simp_all add: logFrames_snoc pushLog_logs)
qed

lemma listenersOk_updJob:
  assumes ok: "listenersOk s"
    and f: "\<And>j. listeners (f j) = listeners j" "\<And>j. logs (f j) = logs j"
  shows "listenersOk (updJob r f s)"
  using ok unfolding listenersOk_def
  by (simp add: nth_update_frame [where f = listeners, OF f(1)] nth_update_frame [where f = logs, OF f(2)])

lemma listenersOk_pushStatus:
  assumes ok: "listenersOk s" and r: "r < length (objs s)"
  shows "listenersOk (pushStatus r ''terminated'' s)"
proof -
  let ?cs = "listeners (objs s ! r)"
  let ?s' = "pushStatus r ''terminated'' s"
  from ok r have pre: "distinct ?cs"
    "\<forall>c\<in>set ?cs. c < length (conns s) \<and> owner (conns s ! c) = r \<and> \<not> ended (conns s ! c)"
    by (simp_all add: listenersOk_def)
  note ca = closeAll [OF pre(1) r pre(2), of "''status''" "''terminated''", folded pushStatus_terminated]
  from ca have o: "objs ?s' = (objs s)[r := (objs s ! r)\<lparr>listeners := []\<rparr>]" by simp
  from ca have other: "\<And>c. c \<notin> set ?cs \<Longrightarrow> conns ?s' ! c = conns s ! c" by blast
  show ?thesis
    unfolding listenersOk_def
  proof (intro allI impI conjI ballI)
    fix k assume "k < length (objs ?s')"
    then have k: "k < length (objs s)" by simp
    show "distinct (listeners (objs ?s' ! k))"
      using ok k r by (cases "k = r") (simp_all add: o listenersOk_def)
    fix c assume c': "c \<in> set (listeners (objs ?s' ! k))"
    with r have kr: "k \<noteq> r" by (auto simp: o)
    with c' have c: "c \<in> set (listeners (objs s ! k))" by (simp add: o)
    with ok k have f: "c < length (conns s)" "owner (conns s ! c) = k" "\<not> ended (conns s ! c)"
      "written (conns s ! c) = logFrames (logs (objs s ! k))"
      by (simp_all add: listenersOk_def)
    have "c \<notin> set ?cs" using pre(2) f kr by auto
    then have same: "conns ?s' ! c = conns s ! c" by (rule other)
    show "c < length (conns ?s')" using f by simp
    show "owner (conns ?s' ! c) = k" using f same by simp
    show "\<not> ended (conns ?s' ! c)" using f same by simp
    show "written (conns ?s' ! c) = logFrames (logs (objs ?s' ! k))" using f same by simp
  qed
qed

lemma nth_update_fields [simp]:
  "job_id (xs[r := (xs ! r)\<lparr>status := st\<rparr>] ! k) = job_id (xs ! k)"
  "logs (xs[r := (xs ! r)\<lparr>status := st\<rparr>] ! k) = logs (xs ! k)"
  "listeners (xs[r := (xs ! r)\<lparr>status := st\<rparr>] ! k) = listeners (xs ! k)"
  "aborted (xs[r := (xs ! r)\<lparr>status := st\<rparr>] ! k) = aborted (xs ! k)"
  "job_id (xs[r := (xs ! r)\<lparr>aborted := b\<rparr>] ! k) = job_id (xs ! k)"
  "logs (xs[r := (xs ! r)\<lparr>aborted := b\<rparr>] ! k) = logs (xs ! k)"
  "listeners (xs[r := (xs ! r)\<lparr>aborted := b\<rparr>] ! k) = listeners (xs ! k)"
  "status (xs[r := (xs ! r)\<lparr>aborted := b\<rparr>] ! k) = status (xs ! k)"
  "job_id (xs[r := (xs ! r)\<lparr>listeners := ls\<rparr>] ! k) = job_id (xs ! k)"
  "logs (xs[r := (xs ! r)\<lparr>listeners := ls\<rparr>] ! k) = logs (xs ! k)"
  "status (xs[r := (xs ! r)\<lparr>listeners := ls\<rparr>] ! k) = status (xs ! k)"
  "aborted (xs[r := (xs ! r)\<lparr>listeners := ls\<rparr>] ! k) = aborted (xs ! k)"
  by (cases "r < length xs"; cases "k = r"; simp add: list_update_beyond)+

lemma register_fields [simp]:
  "objs (register i s) = objs s @ [newJob i]"
  "jobs (register i s) = (jobs s)(i \<mapsto> length (objs s))"
  "runningJobs (register i s) = setAdd i (runningJobs s)"
  "logSinks (register i s) = (logSinks s)(i \<mapsto> length (objs s))"
  "conns (register i s) = conns s"
  "tasks (register i s) = (tasks s)(length (objs s) := Pending)"
  "console (register i s) = console s"
  by (simp_all add: register_def)

lemma newJob_fields [simp]:
  "job_id (newJob i) = i" "status (newJob i) = Running" "logs (newJob i) = []"
  "listeners (newJob i) = []" "aborted (newJob i) = False"
  by (simp_all add: newJob_def)

lemma openStream_fields [simp]:
  "objs (openStream r s) = objs s"
  "jobs (openStream r s) = jobs s"
  "runningJobs (openStream r s) = runningJobs s"
  "logSinks (openStream r s) = logSinks s"
  "conns (openStream r s) = conns s @ [\<lparr>written = [], ended = False, owner = r\<rparr>]"
  "tasks (openStream r s) = tasks s"
  "console (openStream r s) = console s"
  by (simp_all add: openStream_def)

lemma replay_fields [simp]:
  "objs (foldl (\<lambda>t line. send c e line t) s ls) = objs s"
  "jobs (foldl (\<lambda>t line. send c e line t) s ls) = jobs s"
  "runningJobs (foldl (\<lambda>t line. send c e line t) s ls) = runningJobs s"
  "logSinks (foldl (\<lambda>t line. send c e line t) s ls) = logSinks s"
  "tasks (foldl (\<lambda>t line. send c e line t) s ls) = tasks s"
  "console (foldl (\<lambda>t line. send c e line t) s ls) = console s"
  "length (conns (foldl (\<lambda>t line. send c e line t) s ls)) = length (conns s)"
  by (induction ls arbitrary: s; simp)+

lemma replay_conn:
  "k \<noteq> c \<Longrightarrow> conns (foldl (\<lambda>t line. send c e line t) s ls) ! k = conns s ! k"
  "c < length (conns s) \<Longrightarrow>
   conns (foldl (\<lambda>t line. send c e line t) s ls) ! c
     = (conns s ! c)\<lparr>written := written (conns s ! c) @ concat (map (sendWrites e) ls)\<rparr>"
  by (induction ls arbitrary: s; simp)+

lemma start_cases:
  "greaterEq (Finite (int (length (runningJobs s)))) mx \<Longrightarrow> start mx i req s = (TooManyRequests, s)"
  "\<not> greaterEq (Finite (int (length (runningJobs s)))) mx \<Longrightarrow>
   falsy (email req) \<or> falsy (password req) \<Longrightarrow> start mx i req s = (BadRequest, s)"
  "\<not> greaterEq (Finite (int (length (runningJobs s)))) mx \<Longrightarrow>
   \<not> falsy (email req) \<Longrightarrow> \<not> falsy (password req) \<Longrightarrow>
   start mx i req s = (Accepted i, pushLog (length (objs s)) ''Job started.'' (register i s))"
  by (simp_all add: start_def)

lemma start_state_cases:
  "snd (start mx i req s) = s
   \<or> snd (start mx i req s) = pushLog (length (objs s)) ''Job started.'' (register i s)
      \<and> \<not> greaterEq (Finite (int (length (runningJobs s)))) mx"
  by (simp add: start_def)

lemma listenersOk_register: "listenersOk s \<Longrightarrow> listenersOk (register i s)"
  by (auto simp: listenersOk_def nth_append less_Suc_eq)

lemma listenersOk_start: "listenersOk s \<Longrightarrow> listenersOk (snd (start mx i req s))"
  using start_state_cases [of mx i req s]
  by (auto simp: listenersOk_register listenersOk_pushLog)

lemma stream_unknown: "jobs s i = None \<Longrightarrow> stream i s = (NotFound, s)"
  by (simp add: stream_def)

lemma stream_known:
  assumes "jobs s i = Some r"
  shows "fst (stream i s) = EventStream (length (conns s))"
    and "objs (snd (stream i s))
           = (objs s)[r := (objs s ! r)\<lparr>listeners := setAdd (length (conns s)) (listeners (objs s ! r))\<rparr>]"
    and "jobs (snd (stream i s)) = jobs s"
    and "runningJobs (snd (stream i s)) = runningJobs s"
    and "logSinks (snd (stream i s)) = logSinks s"
    and "tasks (snd (stream i s)) = tasks s"
    and "console (snd (stream i s)) = console s"
    and "length (conns (snd (stream i s))) = Suc (length (conns s))"
    and "\<And>k. k < length (conns s) \<Longrightarrow> conns (snd (stream i s)) ! k = conns s ! k"
    and "conns (snd (stream i s)) ! length (conns s)
           = \<lparr>written = logFrames (logs (objs s ! r)), ended = False, owner = r\<rparr>"
  using assms
  by (simp_all add: stream_def Let_def replay_conn nth_append logFrames_def)

lemma setAdd_new: "x \<notin> set xs \<Longrightarrow> setAdd x xs = xs @ [x]"
  by (simp add: setAdd_def)

lemma listenersOk_stream:
  assumes ok: "listenersOk s" and refs: "refsOk s"
  shows "listenersOk (snd (stream i s))"
proof (cases "jobs s i")
  case None
  with ok show ?thesis by (simp add: stream_unknown)
next
  case (Some r)
  note k = stream_known [OF Some]
  let ?c = "length (conns s)"
  let ?s' = "snd (stream i s)"
  from refs Some have r: "r < length (objs s)" by (simp add: refsOk_def)
  have fresh: "\<And>k. k < length (objs s) \<Longrightarrow> ?c \<notin> set (listeners (objs s ! k))"
    using ok by (auto simp: listenersOk_def)
  have ls: "\<And>k. k < length (objs s) \<Longrightarrow>
     listeners (objs ?s' ! k) = (if k = r then listeners (objs s ! r) @ [?c] else listeners (objs s ! k))"
    using r fresh by (simp add: k(2) setAdd_new)
  have lg: "\<And>k. logs (objs ?s' ! k) = logs (objs s ! k)"
    by (simp add: k(2))
  show ?thesis
    unfolding listenersOk_def
  proof (intro allI impI conjI ballI)
    fix m assume "m < length (objs ?s')"
    then have m: "m < length (objs s)" by (simp add: k(2))
    show "distinct (listeners (objs ?s' ! m))"
      using ok m fresh [OF m] by (cases "m = r") (simp_all add: ls listenersOk_def)
    fix c assume c: "c \<in> set (listeners (objs ?s' ! m))"
    have all: "c < length (conns ?s') \<and> owner (conns ?s' ! c) = m \<and> \<not> ended (conns ?s' ! c) \<and>
          written (conns ?s' ! c) = logFrames (logs (objs ?s' ! m))"
    proof (cases "c = ?c")
      case True
      with c m fresh [OF m] have "m = r" by (simp add: ls split: if_splits)
      with True show ?thesis by (simp add: k lg)
    next
      case False
      with c m have "c \<in> set (listeners (objs s ! m))" by (simp add: ls split: if_splits)
      with ok m have "c < length (conns s)" "owner (conns s ! c) = m" "\<not> ended (conns s ! c)"
        "written (conns s ! c) = logFrames (logs (objs s ! m))"
        by (simp_all add: listenersOk_def)
      then show ?thesis by (simp add: k lg)
    qed
    from all show "c < length (conns ?s')" by simp
    from all show "owner (conns ?s' ! c) = m" by simp
    from all show "\<not> ended (conns ?s' ! c)" by simp
    from all show "written (conns ?s' ! c) = logFrames (logs (objs ?s' ! m))" by simp
  qed
qed

lemma listenersOk_onClose: "listenersOk s \<Longrightarrow> listenersOk (onClose c s)"
proof -
  assume ok: "listenersOk s"
  let ?o = "owner (conns s ! c)"
  have "listenersOk (updJob ?o (\<lambda>j. j\<lparr>listeners := setDelete c (listeners j)\<rparr>) s)"
    unfolding listenersOk_def
  proof (intro allI impI)
    fix k assume "k < length (objs (updJob ?o (\<lambda>j. j\<lparr>listeners := setDelete c (listeners j)\<rparr>) s))"
    then have k: "k < length (objs s)" by simp
    have "listeners (objs (updJob ?o (\<lambda>j. j\<lparr>listeners := setDelete c (listeners j)\<rparr>) s) ! k)
            = (if k = ?o then removeAll c (listeners (objs s ! k)) else listeners (objs s ! k))"
      using k by (simp add: setDelete_def)
    with ok k
    show "distinct (listeners (objs (updJob ?o (\<lambda>j. j\<lparr>listeners := setDelete c (listeners j)\<rparr>) s) ! k)) \<and>
       (\<forall>c'\<in>set (listeners (objs (updJob ?o (\<lambda>j. j\<lparr>listeners := setDelete c (listeners j)\<rparr>) s) ! k)).
           c' < length (conns (updJob ?o (\<lambda>j. j\<lparr>listeners := setDelete c (listeners j)\<rparr>) s)) \<and>
           owner (conns (updJob ?o (\<lambda>j. j\<lparr>listeners := setDelete c (listeners j)\<rparr>) s) ! c') = k \<and>
           \<not> ended (conns (updJob ?o (\<lambda>j. j\<lparr>listeners := setDelete c (listeners j)\<rparr>) s) ! c') \<and>
           written (conns (updJob ?o (\<lambda>j. j\<lparr>listeners := setDelete c (listeners j)\<rparr>) s) ! c')
             = logFrames (logs (objs (updJob ?o (\<lambda>j. j\<lparr>listeners := setDelete c (listeners j)\<rparr>) s) ! k)))"
      by (auto simp: listenersOk_def distinct_removeAll)
  qed
  with ok show ?thesis by (simp add: onClose_def)
qed

lemma emitLoop:
  "foldl (\<lambda>t line. let trimmed = trimEnd line
                     in if length trimmed = 0 then t
                        else logSink r \<lparr>level = lvl, message = trimmed, timestamp = ts\<rparr> t) s ls
     = foldl (\<lambda>t l. pushLog r l t) s (filter (\<lambda>l. l \<noteq> []) (map trimEnd ls))"
  by (induction ls arbitrary: s) (simp_all add: logSink_def Let_def)

lemma emitLoop_norm:
  "foldl (\<lambda>t line. let trimmed = trimEnd line
                     in if trimmed = [] then t
                        else logSink r \<lparr>level = lvl, message = trimmed, timestamp = ts\<rparr> t) s ls
     = foldl (\<lambda>t l. pushLog r l t) s (filter (\<lambda>l. l \<noteq> []) (map trimEnd ls))"
  using emitLoop [of r lvl ts s ls] by simp

lemma listenersOk_upd [simp]:
  "listenersOk (s\<lparr>tasks := t\<rparr>) = listenersOk s"
  "listenersOk (s\<lparr>console := co\<rparr>) = listenersOk s"
  "listenersOk (s\<lparr>logSinks := ls\<rparr>) = listenersOk s"
  "listenersOk (s\<lparr>runningJobs := rs\<rparr>) = listenersOk s"
  "listenersOk (s\<lparr>jobs := js\<rparr>) = listenersOk s"
  by (simp_all add: listenersOk_def)

lemma pushAll_fields [simp]:
  "jobs (foldl (\<lambda>t l. pushLog r l t) s ls) = jobs s"
  "runningJobs (foldl (\<lambda>t l. pushLog r l t) s ls) = runningJobs s"
  "logSinks (foldl (\<lambda>t l. pushLog r l t) s ls) = logSinks s"
  "tasks (foldl (\<lambda>t l. pushLog r l t) s ls) = tasks s"
  "console (foldl (\<lambda>t l. pushLog r l t) s ls) = console s"
  "length (conns (foldl (\<lambda>t l. pushLog r l t) s ls)) = length (conns s)"
  "length (objs (foldl (\<lambda>t l. pushLog r l t) s ls)) = length (objs s)"
  "job_id (objs (foldl (\<lambda>t l. pushLog r l t) s ls) ! k) = job_id (objs s ! k)"
  "status (objs (foldl (\<lambda>t l. pushLog r l t) s ls) ! k) = status (objs s ! k)"
  "aborted (objs (foldl (\<lambda>t l. pushLog r l t) s ls) ! k) = aborted (objs s ! k)"
  "listeners (objs (foldl (\<lambda>t l. pushLog r l t) s ls) ! k) = listeners (objs s ! k)"
  by (induction ls arbitrary: s; simp)+

lemma pushAll_logs:
  "r < length (objs s) \<Longrightarrow>
   logs (objs (foldl (\<lambda>t l. pushLog r l t) s ls) ! r) = logs (objs s ! r) @ ls"
  "k \<noteq> r \<Longrightarrow> logs (objs (foldl (\<lambda>t l. pushLog r l t) s ls) ! k) = logs (objs s ! k)"
  by (induction ls arbitrary: s; simp add: pushLog_logs)+

lemma listenersOk_pushAll:
  "listenersOk s \<Longrightarrow> r < length (objs s) \<Longrightarrow> listenersOk (foldl (\<lambda>t l. pushLog r l t) s ls)"
  by (induction ls arbitrary: s) (simp_all add: listenersOk_pushLog)

lemma emit_cases:
  "emit None lvl formatted ts s = s"
  "logSinks s i = None \<Longrightarrow> emit (Some i) lvl formatted ts s = s"
  "logSinks s i = Some r \<Longrightarrow>
   emit (Some i) lvl formatted ts s
     = foldl (\<lambda>t l. pushLog r l t) s
         (filter (\<lambda>l. l \<noteq> []) (map trimEnd (splitLines (stripAnsi formatted))))"
  by (simp_all add: emit_def emitLoop_norm)

lemma listenersOk_emit:
  assumes "listenersOk s" "refsOk s"
  shows "listenersOk (emit context lvl formatted ts s)"
proof (cases "context")
  case None
  with assms show ?thesis by (simp add: emit_cases)
next
  case (Some i)
  show ?thesis
  proof (cases "logSinks s i")
    case None
    with Some assms show ?thesis by (simp add: emit_cases)
  next
    case (Some r)
    with assms(2) have "r < length (objs s)" by (simp add: refsOk_def)
    with Some \<open>context = Some i\<close> assms(1) show ?thesis
      by (simp add: emit_cases listenersOk_pushAll)
  qed
qed

lemma listenersOk_print:
  assumes "listenersOk s" "refsOk s"
  shows "listenersOk (print context lvl formatted ts s)"
proof -
  have "listenersOk (s\<lparr>console := console s @ [formatted]\<rparr>)"
    using assms(1) by simp
  moreover have "refsOk (s\<lparr>console := console s @ [formatted]\<rparr>)"
    using assms(2) by (simp add: refsOk_def)
  ultimately show ?thesis by (simp add: print_def listenersOk_emit)
qed

lemma endJob_cases:
  "jobs s i = None \<Longrightarrow> endJob i s = (NotFound, s)"
  "jobs s i = Some r \<Longrightarrow> status (objs s ! r) \<noteq> Running \<Longrightarrow>
   endJob i s = (Conflict (status (objs s ! r)), s)"
  "jobs s i = Some r \<Longrightarrow> status (objs s ! r) = Running \<Longrightarrow>
   endJob i s = (AcceptedEnd,
      pushLog r ''Termination requested.'' (updJob r (\<lambda>j. j\<lparr>aborted := True\<rparr>) s))"
  by (simp_all add: endJob_def)

lemma listenersOk_endJob:
  assumes "listenersOk s" "refsOk s"
  shows "listenersOk (snd (endJob i s))"
proof (cases "jobs s i")
  case None
  with assms show ?thesis by (simp add: endJob_cases)
next
  case (Some r)
  with assms(2) have r: "r < length (objs s)" by (simp add: refsOk_def)
  show ?thesis
  proof (cases "status (objs s ! r) = Running")
    case True
    have "listenersOk (updJob r (\<lambda>j. j\<lparr>aborted := True\<rparr>) s)"
      using assms(1) by (rule listenersOk_updJob) simp_all
    with r Some True show ?thesis by (simp add: endJob_cases listenersOk_pushLog)
  next
    case False
    with Some assms show ?thesis by (simp add: endJob_cases)
  qed
qed

lemma listenersOk_onResolved: "listenersOk s \<Longrightarrow> listenersOk (onResolved r s)"
proof -
  assume ok: "listenersOk s"
  show ?thesis
  proof (cases "r < length (objs s) \<and> tasks s r = Pending")
    case True
    let ?s1 = "updJob r (\<lambda>j. j\<lparr>status := if aborted j then Terminated else Completed\<rparr>) s"
    let ?s3 = "pushStatus r ''terminated'' (pushLog r ''Job terminated successfully.'' ?s1)"
    have "listenersOk ?s1" using ok by (rule listenersOk_updJob) simp_all
    with True have "listenersOk ?s3"
      by (simp add: listenersOk_pushLog listenersOk_pushStatus)
    with True show ?thesis by (simp add: onResolved_def Let_def)
  next
    case False
    with ok show ?thesis by (auto simp: onResolved_def)
  qed
qed

lemma listenersOk_onRejected: "listenersOk s \<Longrightarrow> listenersOk (onRejected r msg s)"
proof -
  assume ok: "listenersOk s"
  show ?thesis
  proof (cases "r < length (objs s) \<and> tasks s r = Pending")
    case True
    let ?s1 = "updJob r (\<lambda>j. j\<lparr>status := if aborted j then Terminated else Failed\<rparr>) s"
    let ?s4 = "pushStatus r ''terminated''
                 (pushLog r ''Job terminated successfully.'' (pushLog r (''Job failed: '' @ msg) ?s1))"
    have "listenersOk ?s1" using ok by (rule listenersOk_updJob) simp_all
    with True have "listenersOk ?s4"
      by (simp add: listenersOk_pushLog listenersOk_pushStatus)
    with True show ?thesis by (simp add: onRejected_def Let_def)
  next
    case False
    with ok show ?thesis by (auto simp: onRejected_def)
  qed
qed

lemma listenersOk_onFinally: "listenersOk s \<Longrightarrow> listenersOk (onFinally r s)"
  by (simp add: onFinally_def)

lemma listenersOk_step:
  "listenersOk s \<Longrightarrow> refsOk s \<Longrightarrow> listenersOk (step mx s e)"
  by (cases e)
     (simp_all add: listenersOk_start listenersOk_stream listenersOk_onClose listenersOk_endJob
        listenersOk_print listenersOk_onResolved listenersOk_onRejected listenersOk_onFinally)

section \<open>What each handler leaves alone\<close>

lemma emit_frame [simp]:
  "jobs (emit ctx lvl formatted ts s) = jobs s"
  "runningJobs (emit ctx lvl formatted ts s) = runningJobs s"
  "logSinks (emit ctx lvl formatted ts s) = logSinks s"
  "tasks (emit ctx lvl formatted ts s) = tasks s"
  "console (emit ctx lvl formatted ts s) = console s"
  "length (conns (emit ctx lvl formatted ts s)) = length (conns s)"
  "length (objs (emit ctx lvl formatted ts s)) = length (objs s)"
  "job_id (objs (emit ctx lvl formatted ts s) ! k) = job_id (objs s ! k)"
  "status (objs (emit ctx lvl formatted ts s) ! k) = status (objs s ! k)"
  "aborted (objs (emit ctx lvl formatted ts s) ! k) = aborted (objs s ! k)"
  "listeners (objs (emit ctx lvl formatted ts s) ! k) = listeners (objs s ! k)"
  by (cases ctx; cases "logSinks s (the ctx)"; simp add: emit_cases)+

lemma print_frame [simp]:
  "jobs (print ctx lvl formatted ts s) = jobs s"
  "runningJobs (print ctx lvl formatted ts s) = runningJobs s"
  "logSinks (print ctx lvl formatted ts s) = logSinks s"
  "tasks (print ctx lvl formatted ts s) = tasks s"
  "console (print ctx lvl formatted ts s) = console s @ [formatted]"
  "length (conns (print ctx lvl formatted ts s)) = length (conns s)"
  "length (objs (print ctx lvl formatted ts s)) = length (objs s)"
  "job_id (objs (print ctx lvl formatted ts s) ! k) = job_id (objs s ! k)"
  "status (objs (print ctx lvl formatted ts s) ! k) = status (objs s ! k)"
  "aborted (objs (print ctx lvl formatted ts s) ! k) = aborted (objs s ! k)"
  "listeners (objs (print ctx lvl formatted ts s) ! k) = listeners (objs s ! k)"
  by (simp_all add: print_def)

lemma endJob_frame [simp]:
  "jobs (snd (endJob i s)) = jobs s"
  "runningJobs (snd (endJob i s)) = runningJobs s"
  "logSinks (snd (endJob i s)) = logSinks s"
  "tasks (snd (endJob i s)) = tasks s"
  "console (snd (endJob i s)) = console s"
  "length (conns (snd (endJob i s))) = length (conns s)"
  "length (objs (snd (endJob i s))) = length (objs s)"
  "job_id (objs (snd (endJob i s)) ! k) = job_id (objs s ! k)"
  "status (objs (snd (endJob i s)) ! k) = status (objs s ! k)"
  "listeners (objs (snd (endJob i s)) ! k) = listeners (objs s ! k)"
  by (simp_all add: endJob_def split: option.split)

lemma stream_frame [simp]:
  "jobs (snd (stream i s)) = jobs s"
  "runningJobs (snd (stream i s)) = runningJobs s"
  "logSinks (snd (stream i s)) = logSinks s"
  "tasks (snd (stream i s)) = tasks s"
  "console (snd (stream i s)) = console s"
  "length (objs (snd (stream i s))) = length (objs s)"
  "job_id (objs (snd (stream i s)) ! k) = job_id (objs s ! k)"
  "status (objs (snd (stream i s)) ! k) = status (objs s ! k)"
  "aborted (objs (snd (stream i s)) ! k) = aborted (objs s ! k)"
  "logs (objs (snd (stream i s)) ! k) = logs (objs s ! k)"
  by (simp_all add: stream_def Let_def split: option.split)

lemma onClose_frame [simp]:
  "jobs (onClose c s) = jobs s"
  "runningJobs (onClose c s) = runningJobs s"
  "logSinks (onClose c s) = logSinks s"
  "tasks (onClose c s) = tasks s"
  "console (onClose c s) = console s"
  "conns (onClose c s) = conns s"
  "length (objs (onClose c s)) = length (objs s)"
  "job_id (objs (onClose c s) ! k) = job_id (objs s ! k)"
  "status (objs (onClose c s) ! k) = status (objs s ! k)"
  "aborted (objs (onClose c s) ! k) = aborted (objs s ! k)"
  "logs (objs (onClose c s) ! k) = logs (objs s ! k)"
  by (simp_all add: onClose_def)

lemma onResolved_frame [simp]:
  "jobs (onResolved r s) = jobs s"
  "runningJobs (onResolved r s) = runningJobs s"
  "logSinks (onResolved r s) = logSinks s"
  "console (onResolved r s) = console s"
  "length (conns (onResolved r s)) = length (conns s)"
  "length (objs (onResolved r s)) = length (objs s)"
  "job_id (objs (onResolved r s) ! k) = job_id (objs s ! k)"
  "aborted (objs (onResolved r s) ! k) = aborted (objs s ! k)"
  by (simp_all add: onResolved_def Let_def)

lemma onRejected_frame [simp]:
  "jobs (onRejected r msg s) = jobs s"
  "runningJobs (onRejected r msg s) = runningJobs s"
  "logSinks (onRejected r msg s) = logSinks s"
  "console (onRejected r msg s) = console s"
  "length (conns (onRejected r msg s)) = length (conns s)"
  "length (objs (onRejected r msg s)) = length (objs s)"
  "job_id (objs (onRejected r msg s) ! k) = job_id (objs s ! k)"
  "aborted (objs (onRejected r msg s) ! k) = aborted (objs s ! k)"
  by (simp_all add: onRejected_def Let_def)

lemma onFinally_frame [simp]:
  "objs (onFinally r s) = objs s"
  "conns (onFinally r s) = conns s"
  "jobs (onFinally r s) = jobs s"
  "console (onFinally r s) = console s"
  by (simp_all add: onFinally_def)

lemma settle_status:
  "r < length (objs s) \<Longrightarrow> tasks s r = Pending \<Longrightarrow>
   status (objs (onResolved r s) ! k)
     = (if k = r then (if aborted (objs s ! r) then Terminated else Completed) else status (objs s ! k))"
  "r < length (objs s) \<Longrightarrow> tasks s r = Pending \<Longrightarrow>
   status (objs (onRejected r msg s) ! k)
     = (if k = r then (if aborted (objs s ! r) then Terminated else Failed) else status (objs s ! k))"
  "\<not> (r < length (objs s) \<and> tasks s r = Pending) \<Longrightarrow> onResolved r s = s"
  "\<not> (r < length (objs s) \<and> tasks s r = Pending) \<Longrightarrow> onRejected r msg s = s"
  "r < length (objs s) \<Longrightarrow> tasks s r = Pending \<Longrightarrow> tasks (onResolved r s) = (tasks s)(r := Settled)"
  "r < length (objs s) \<Longrightarrow> tasks s r = Pending \<Longrightarrow> tasks (onRejected r msg s) = (tasks s)(r := Settled)"
  by (auto simp: onResolved_def onRejected_def Let_def)

section \<open>Well-formedness is invariant\<close>

text \<open>Every state the worker reaches from its initial state is well formed.\<close>

lemma refsOk_step: "refsOk s \<Longrightarrow> refsOk (step mx s e)"
proof (cases e)
  case (Start i req)
  assume "refsOk s"
  then show ?thesis
    using start_state_cases [of mx i req s]
    by (auto simp: Start refsOk_def nth_append less_Suc_eq split: if_splits)
next
  case (Finally r)
  assume "refsOk s"
  then show ?thesis
    by (auto simp: Finally refsOk_def onFinally_def split: if_splits)
qed (simp_all add: refsOk_def)

lemma phasesOk_step: "phasesOk s \<Longrightarrow> refsOk s \<Longrightarrow> phasesOk (step mx s e)"
proof (cases e)
  case (Start i req)
  assume "phasesOk s" "refsOk s"
  then show ?thesis
    using start_state_cases [of mx i req s]
    by (auto simp: Start phasesOk_def nth_append less_Suc_eq split: if_splits)
next
  case (Resolved r)
  assume "phasesOk s" "refsOk s"
  then show ?thesis
    by (cases "r < length (objs s) \<and> tasks s r = Pending")
       (auto simp: Resolved phasesOk_def settle_status split: if_splits)
next
  case (Rejected r msg)
  assume "phasesOk s" "refsOk s"
  then show ?thesis
    by (cases "r < length (objs s) \<and> tasks s r = Pending")
       (auto simp: Rejected phasesOk_def settle_status split: if_splits)
next
  case (Finally r)
  assume "phasesOk s" "refsOk s"
  then show ?thesis
    by (auto simp: Finally phasesOk_def refsOk_def onFinally_def split: if_splits)
qed (simp_all add: phasesOk_def)

lemma wellFormed_init: "wellFormed init"
  by (simp add: wellFormed_def listenersOk_def refsOk_def phasesOk_def init_def)

lemma wellFormed_step: "wellFormed s \<Longrightarrow> wellFormed (step mx s e)"
  by (simp add: wellFormed_def listenersOk_step refsOk_step phasesOk_step)

lemma wellFormed_run: "wellFormed s \<Longrightarrow> wellFormed (run mx s es)"
  unfolding run_def by (induction es arbitrary: s) (simp_all add: wellFormed_step)

lemma run_simps: "run mx s [] = s" "run mx s (e # es) = run mx (step mx s e) es"
  by (simp_all add: run_def)

section \<open>Admission control\<close>

text \<open>
  The running set never outgrows the ceiling. With fresh ids the running jobs have distinct
  ids, all in the running set, so there are no more running jobs than members of the set.
\<close>

lemma length_setAdd: "length (setAdd x xs) = (if x \<in> set xs then length xs else Suc (length xs))"
  by (simp add: setAdd_def)

lemma set_setAdd [simp]: "set (setAdd x xs) = insert x (set xs)"
  by (auto simp: setAdd_def)

lemma distinct_setAdd [simp]: "distinct (setAdd x xs) = distinct xs"
  by (simp add: setAdd_def)

lemma capacity_step:
  assumes "greaterEq mx (Finite (int (length (runningJobs s))))"
  shows "greaterEq mx (Finite (int (length (runningJobs (step mx s e)))))"
proof (cases e)
  case (Start i req)
  have "length (setAdd i (runningJobs s)) \<le> Suc (length (runningJobs s))"
    by (simp add: length_setAdd)
  with assms show ?thesis
    using start_state_cases [of mx i req s]
    by (auto simp: Start greaterEq_ceiling greaterEq_count)
next
  case (Finally r)
  have "length (removeAll (job_id (objs s ! r)) (runningJobs s)) \<le> length (runningJobs s)"
    by (simp add: removeAll_filter_not_eq)
  then have "\<And>m. int (length (runningJobs s)) \<le> m \<Longrightarrow>
      int (length (removeAll (job_id (objs s ! r)) (runningJobs s))) \<le> m"
    by linarith
  with assms show ?thesis
    by (auto simp: Finally onFinally_def setDelete_def greaterEq_ceiling)
qed (use assms in simp_all)

lemma registryOk_step:
  assumes reg: "registryOk s" and ph: "phasesOk s"
    and fresh: "case e of Start i _ \<Rightarrow> jobs s i = None | _ \<Rightarrow> True"
  shows "registryOk (step mx s e)"
proof (cases e)
  case (Start i req)
  with fresh have f: "jobs s i = None" by simp
  from reg f have ni: "\<And>k. k < length (objs s) \<Longrightarrow> job_id (objs s ! k) \<noteq> i"
    by (auto simp: registryOk_def)
  let ?n = "length (objs s)"
  let ?s' = "pushLog ?n ''Job started.'' (register i s)"
  have old: "\<And>k. k < ?n \<Longrightarrow> job_id (objs ?s' ! k) = job_id (objs s ! k)"
            "\<And>k. k < ?n \<Longrightarrow> status (objs ?s' ! k) = status (objs s ! k)"
    and new: "job_id (objs ?s' ! ?n) = i"
    by (simp_all add: nth_append)
  have "registryOk ?s'"
    unfolding registryOk_def
  proof (intro conjI allI impI ballI)
    fix k assume "k < length (objs ?s')"
    then consider "k < ?n" | "k = ?n" by (auto simp: less_Suc_eq)
    then show "jobs ?s' (job_id (objs ?s' ! k)) = Some k"
    proof cases
      case 1
      with reg ni [OF 1] show ?thesis by (simp add: nth_append registryOk_def)
    next
      case 2
      then show ?thesis by (simp add: new)
    qed
  next
    fix k assume "k < length (objs ?s')" and run: "status (objs ?s' ! k) = Running"
    then consider "k < ?n" | "k = ?n" by (auto simp: less_Suc_eq)
    then show "job_id (objs ?s' ! k) \<in> set (runningJobs ?s')"
    proof cases
      case 1
      with reg run show ?thesis by (simp add: nth_append registryOk_def)
    next
      case 2
      then show ?thesis by (simp add: new)
    qed
  next
    fix j assume "j \<in> set (runningJobs ?s')"
    with reg show "jobs ?s' j \<noteq> None" by (auto simp: registryOk_def)
  next
    from reg show "distinct (runningJobs ?s')" by (simp add: registryOk_def)
  qed
  with reg show ?thesis
    using start_state_cases [of mx i req s] by (auto simp: Start)
next
  case (Finally r)
  show ?thesis
  proof (cases "r < length (objs s) \<and> tasks s r = Settled")
    case True
    with ph have nr: "status (objs s ! r) \<noteq> Running" by (auto simp: phasesOk_def)
    have other: "\<And>k. k < length (objs s) \<Longrightarrow> status (objs s ! k) = Running \<Longrightarrow>
        job_id (objs s ! k) \<noteq> job_id (objs s ! r)"
    proof
      fix k assume k: "k < length (objs s)" "status (objs s ! k) = Running"
        and eq: "job_id (objs s ! k) = job_id (objs s ! r)"
      from reg k(1) have fk: "jobs s (job_id (objs s ! k)) = Some k" by (simp add: registryOk_def)
      from reg True have fr: "jobs s (job_id (objs s ! r)) = Some r" by (simp add: registryOk_def)
      from fk fr eq have "k = r" by (metis option.inject)
      with k(2) nr show False by simp
    qed
    from reg True other show ?thesis
      by (auto simp: Finally registryOk_def onFinally_def setDelete_def distinct_removeAll)
  next
    case False
    with reg show ?thesis by (auto simp: Finally onFinally_def)
  qed
next
  case (Resolved r)
  with reg show ?thesis
    by (cases "r < length (objs s) \<and> tasks s r = Pending")
       (auto simp: registryOk_def settle_status split: if_splits)
next
  case (Rejected r msg)
  with reg show ?thesis
    by (cases "r < length (objs s) \<and> tasks s r = Pending")
       (auto simp: registryOk_def settle_status split: if_splits)
qed (use reg in \<open>simp_all add: registryOk_def\<close>)

lemma registryOk_init: "registryOk init"
  by (simp add: registryOk_def init_def)

lemma fresh_run_invariant:
  assumes "wellFormed s" "registryOk s" "greaterEq mx (Finite (int (length (runningJobs s))))"
    "freshIds mx s es"
  shows "wellFormed (run mx s es) \<and> registryOk (run mx s es)
         \<and> greaterEq mx (Finite (int (length (runningJobs (run mx s es)))))"
  using assms
proof (induction es arbitrary: s)
  case Nil
  then show ?case by (simp add: run_simps)
next
  case (Cons e es)
  from Cons.prems have a: "wellFormed (step mx s e)" by (simp add: wellFormed_step)
  from Cons.prems have b: "registryOk (step mx s e)"
    by (intro registryOk_step) (simp_all add: wellFormed_def)
  from Cons.prems have c: "greaterEq mx (Finite (int (length (runningJobs (step mx s e)))))"
    by (simp add: capacity_step)
  from Cons.prems have d: "freshIds mx (step mx s e) es" by simp
  from Cons.IH [OF a b c d] show ?case by (simp add: run_simps)
qed

lemma runningCount_le:
  assumes reg: "registryOk s"
  shows "runningCount s \<le> length (runningJobs s)"
proof -
  let ?A = "{k. k < length (objs s) \<and> status (objs s ! k) = Running}"
  let ?f = "\<lambda>k. job_id (objs s ! k)"
  have inj: "inj_on ?f ?A"
  proof (rule inj_onI)
    fix a b assume a: "a \<in> ?A" and b: "b \<in> ?A" and eq: "?f a = ?f b"
    from reg a have fa: "jobs s (?f a) = Some a" by (simp add: registryOk_def)
    from reg b have fb: "jobs s (?f b) = Some b" by (simp add: registryOk_def)
    from fa fb eq show "a = b" by (metis option.inject)
  qed
  have sub: "?f ` ?A \<subseteq> set (runningJobs s)"
  proof
    fix x assume "x \<in> ?f ` ?A"
    then obtain k where k: "k < length (objs s)" "status (objs s ! k) = Running" "x = ?f k"
      by blast
    from reg have "\<forall>r < length (objs s). status (objs s ! r) = Running
          \<longrightarrow> job_id (objs s ! r) \<in> set (runningJobs s)"
      by (simp add: registryOk_def)
    with k show "x \<in> set (runningJobs s)" by simp
  qed
  have fin: "finite (set (runningJobs s))" by simp
  have "card ?A \<le> card (set (runningJobs s))"
    by (rule card_inj_on_le [OF inj sub fin])
  also have "\<dots> = length (runningJobs s)"
    using reg by (simp add: registryOk_def distinct_card)
  finally have le: "card ?A \<le> length (runningJobs s)" .
  have "runningCount s = card ?A"
    unfolding runningCount_def by (rule length_filter_conv_card)
  with le show ?thesis by simp
qed

lemmas worker_defs =
  start_def register_def newJob_def falsy_def setAdd_def setDelete_def pushLog_def pushStatus_def
  updJob_def updConn_def send_def sendWrites_def escapeNewlines_def listenerEnd_def stream_def
  openStream_def onClose_def endJob_def onResolved_def onRejected_def onFinally_def print_def
  emit_def logSink_def trimEnd_def isWhiteSpace_def init_def credentials_def Let_def

text \<open>
  Claim C1. With a fresh id for every start request, in every run of the worker (start
  requests, finalizations and all other events in any order) the number of jobs whose
  status is \<open>running\<close> never exceeds the ceiling, and neither does the running set; for a
  ceiling that is the integer \<open>m\<close> both are at most \<open>m\<close>. A start request that finds the
  running set full (the handler's test \<open>runningJobs.size >= maxConcurrentJobs\<close>) is
  answered 429 and leaves the state as it was: no slot, no job record. The check and the
  reservation are one step of the handler, so when one slot remains and a start request
  takes it, the next start request is rejected.
\<close>

theorem admission_bound:
  assumes "mx = maxConcurrentJobs env" and "s = run mx init es" and "freshIds mx init es"
  shows "greaterEq mx (Finite (int (runningCount s)))
         \<and> greaterEq mx (Finite (int (length (runningJobs s))))
         \<and> (mx = Finite m \<longrightarrow> int (runningCount s) \<le> m \<and> int (length (runningJobs s)) \<le> m)
         \<and> (greaterEq (Finite (int (length (runningJobs s)))) mx
              \<longrightarrow> start mx i req s = (TooManyRequests, s) \<and> httpStatus TooManyRequests = 429)
         \<and> (mx = Finite (int (length (runningJobs s)) + 1) \<and> jobs s i = None
              \<and> fst (start mx i req s) = Accepted i
              \<longrightarrow> fst (start mx i' req' (snd (start mx i req s))) = TooManyRequests)"
proof -
  have "greaterEq mx (Finite (int (length (runningJobs init))))"
    using assms(1) maxConcurrentJobs_cases [of env] by (auto simp: init_def greaterEq_ceiling)
  with assms(2,3) have inv: "wellFormed s" "registryOk s"
      "greaterEq mx (Finite (int (length (runningJobs s))))"
    using fresh_run_invariant [OF wellFormed_init registryOk_init, of mx es] by simp_all
  have 1: "greaterEq mx (Finite (int (runningCount s)))"
    using runningCount_le [OF inv(2)] inv(3) by (auto simp: greaterEq_ceiling)
  have 2: "mx = Finite m \<longrightarrow> int (runningCount s) \<le> m \<and> int (length (runningJobs s)) \<le> m"
    using 1 inv(3) by auto
  have 3: "greaterEq (Finite (int (length (runningJobs s)))) mx
      \<longrightarrow> start mx i req s = (TooManyRequests, s) \<and> httpStatus TooManyRequests = 429"
    by (simp add: start_cases)
  have 4: "mx = Finite (int (length (runningJobs s)) + 1) \<and> jobs s i = None
              \<and> fst (start mx i req s) = Accepted i
              \<longrightarrow> fst (start mx i' req' (snd (start mx i req s))) = TooManyRequests"
  proof (intro impI, elim conjE)
    assume len: "mx = Finite (int (length (runningJobs s)) + 1)" and fresh: "jobs s i = None"
      and acc: "fst (start mx i req s) = Accepted i"
    from inv(2) fresh have "i \<notin> set (runningJobs s)" by (auto simp: registryOk_def)
    moreover from acc have "snd (start mx i req s) = pushLog (length (objs s)) ''Job started.'' (register i s)"
      by (auto simp: start_def split: if_splits)
    ultimately have "greaterEq (Finite (int (length (runningJobs (snd (start mx i req s)))))) mx"
      using len by (simp add: length_setAdd)
    then show "fst (start mx i' req' (snd (start mx i req s))) = TooManyRequests"
      by (simp add: start_cases)
  qed
  from 1 inv(3) 2 3 4 show ?thesis by blast
qed

lemma two_started:
  "runningJobs (run (Finite 3) init [Start ''a'' credentials, Start ''b'' credentials]) = [''a'', ''b'']"
  "jobs (run (Finite 3) init [Start ''a'' credentials, Start ''b'' credentials]) ''c'' = None"
  "freshIds (Finite 3) init [Start ''a'' credentials, Start ''b'' credentials]"
  "fst (start (Finite 3) ''c'' credentials (run (Finite 3) init [Start ''a'' credentials, Start ''b'' credentials])) = Accepted ''c''"
  by (simp_all add: run_simps worker_defs)

lemma three_started_one_settled:
  "runningJobs (run (Finite 3) init [Start ''a'' credentials, Start ''b'' credentials, Start ''c'' credentials,
                            Resolved 0])
     = [''a'', ''b'', ''c'']"
  "freshIds (Finite 3) init [Start ''a'' credentials, Start ''b'' credentials, Start ''c'' credentials, Resolved 0]"
  by (simp_all add: run_simps worker_defs)

theorem admission_bound_witness:
  "maxConcurrentJobs None = Finite 3
   \<and> freshIds (Finite 3) init [Start ''a'' credentials, Start ''b'' credentials]
   \<and> runningCount (run (Finite 3) init [Start ''a'' credentials, Start ''b'' credentials]) \<le> 3
   \<and> fst (start (Finite 3) ''c'' credentials
        (run (Finite 3) init [Start ''a'' credentials, Start ''b'' credentials]))
       = Accepted ''c''
   \<and> fst (start (Finite 3) ''d'' credentials
        (snd (start (Finite 3) ''c'' credentials
           (run (Finite 3) init [Start ''a'' credentials, Start ''b'' credentials]))))
       = TooManyRequests
   \<and> start (Finite 3) ''d'' credentials
        (run (Finite 3) init
           [Start ''a'' credentials, Start ''b'' credentials, Start ''c'' credentials, Resolved 0])
       = (TooManyRequests,
          run (Finite 3) init
            [Start ''a'' credentials, Start ''b'' credentials, Start ''c'' credentials, Resolved 0])"
proof -
  have mx: "maxConcurrentJobs None = Finite 3"
    by (rule maxConcurrentJobs_absent)
  from admission_bound [of "Finite 3" None
      "run (Finite 3) init [Start ''a'' credentials, Start ''b'' credentials]"
      "[Start ''a'' credentials, Start ''b'' credentials]" 3 "''c''" credentials "''d''" credentials]
    admission_bound [of "Finite 3" None
      "run (Finite 3) init
         [Start ''a'' credentials, Start ''b'' credentials, Start ''c'' credentials, Resolved 0]"
      "[Start ''a'' credentials, Start ''b'' credentials, Start ''c'' credentials, Resolved 0]"
      3 "''d''" credentials "''d''" credentials]
    mx two_started three_started_one_settled
  show ?thesis by simp
qed

section \<open>Finalization\<close>

text \<open>
  The \<open>then\<close> and \<open>catch\<close> handlers in closed form, and the finality of the status they
  set.
\<close>

lemma pushStatus_closed:
  assumes ok: "listenersOk s" and r: "r < length (objs s)"
  shows "listeners (objs (pushStatus r ''terminated'' s) ! k)
           = (if k = r then [] else listeners (objs s ! k))"
    and "c \<notin> set (listeners (objs s ! r)) \<Longrightarrow> conns (pushStatus r ''terminated'' s) ! c = conns s ! c"
    and "c \<in> set (listeners (objs s ! r)) \<Longrightarrow>
         conns (pushStatus r ''terminated'' s) ! c
           = (conns s ! c)\<lparr>written := written (conns s ! c) @ sendWrites ''status'' ''terminated'',
                              ended := True\<rparr>"
proof -
  let ?cs = "listeners (objs s ! r)"
  from ok r have pre: "distinct ?cs"
    "\<forall>c\<in>set ?cs. c < length (conns s) \<and> owner (conns s ! c) = r \<and> \<not> ended (conns s ! c)"
    by (simp_all add: listenersOk_def)
  note ca = closeAll [OF pre(1) r pre(2), of "''status''" "''terminated''", folded pushStatus_terminated]
  from ca have o: "objs (pushStatus r ''terminated'' s) = (objs s)[r := (objs s ! r)\<lparr>listeners := []\<rparr>]"
    by simp
  from r show "listeners (objs (pushStatus r ''terminated'' s) ! k)
           = (if k = r then [] else listeners (objs s ! k))"
    by (simp add: o)
  from ca show "c \<notin> set ?cs \<Longrightarrow> conns (pushStatus r ''terminated'' s) ! c = conns s ! c"
    by blast
  from ca show "c \<in> set ?cs \<Longrightarrow>
         conns (pushStatus r ''terminated'' s) ! c
           = (conns s ! c)\<lparr>written := written (conns s ! c) @ sendWrites ''status'' ''terminated'',
                              ended := True\<rparr>"
    by blast
qed

lemma pushLog_closed:
  assumes ok: "listenersOk s" and r: "r < length (objs s)"
  shows "logs (objs (pushLog r line s) ! k)
           = (if k = r then logs (objs s ! r) @ [line] else logs (objs s ! k))"
    and "c \<notin> set (listeners (objs s ! r)) \<Longrightarrow> conns (pushLog r line s) ! c = conns s ! c"
    and "c \<in> set (listeners (objs s ! r)) \<Longrightarrow>
         conns (pushLog r line s) ! c
           = (conns s ! c)\<lparr>written := written (conns s ! c) @ sendWrites ''log'' line\<rparr>"
proof -
  from ok r have d: "distinct (listeners (objs s ! r))"
    and lt: "\<And>c. c \<in> set (listeners (objs s ! r)) \<Longrightarrow> c < length (conns s)"
    by (simp_all add: listenersOk_def)
  from r show "logs (objs (pushLog r line s) ! k)
           = (if k = r then logs (objs s ! r) @ [line] else logs (objs s ! k))"
    by (simp add: pushLog_logs)
  from r show "c \<notin> set (listeners (objs s ! r)) \<Longrightarrow> conns (pushLog r line s) ! c = conns s ! c"
    by (rule pushLog_conn)
  from r d lt show "c \<in> set (listeners (objs s ! r)) \<Longrightarrow>
         conns (pushLog r line s) ! c
           = (conns s ! c)\<lparr>written := written (conns s ! c) @ sendWrites ''log'' line\<rparr>"
    by (simp add: pushLog_conn)
qed

lemma listenersOk_setStatus:
  "listenersOk s \<Longrightarrow> listenersOk (updJob r (\<lambda>j. j\<lparr>status := f j\<rparr>) s)"
  by (rule listenersOk_updJob) simp_all

lemma onResolved_closed:
  assumes ok: "listenersOk s" and r: "r < length (objs s)" and p: "tasks s r = Pending"
  shows "logs (objs (onResolved r s) ! k)
           = (if k = r then logs (objs s ! r) @ [''Job terminated successfully.''] else logs (objs s ! k))"
    and "listeners (objs (onResolved r s) ! k) = (if k = r then [] else listeners (objs s ! k))"
    and "c \<notin> set (listeners (objs s ! r)) \<Longrightarrow> conns (onResolved r s) ! c = conns s ! c"
    and "c \<in> set (listeners (objs s ! r)) \<Longrightarrow>
         conns (onResolved r s) ! c
           = (conns s ! c)\<lparr>written := written (conns s ! c)
                                @ sendWrites ''log'' ''Job terminated successfully.''
                                @ sendWrites ''status'' ''terminated'',
                              ended := True\<rparr>"
proof -
  let ?s1 = "updJob r (\<lambda>j. j\<lparr>status := if aborted j then Terminated else Completed\<rparr>) s"
  let ?s2 = "pushLog r ''Job terminated successfully.'' ?s1"
  let ?s3 = "pushStatus r ''terminated'' ?s2"
  have ok1: "listenersOk ?s1" using ok by (rule listenersOk_setStatus)
  have r1: "r < length (objs ?s1)" using r by simp
  have ok2: "listenersOk ?s2" using ok1 r1 by (rule listenersOk_pushLog)
  have r2: "r < length (objs ?s2)" using r by simp
  have eq: "onResolved r s = ?s3\<lparr>tasks := (tasks ?s3)(r := Settled)\<rparr>"
    using r p by (simp add: onResolved_def Let_def)
  have l1: "\<And>k. listeners (objs ?s2 ! k) = listeners (objs s ! k)" by simp
  show "logs (objs (onResolved r s) ! k)
           = (if k = r then logs (objs s ! r) @ [''Job terminated successfully.''] else logs (objs s ! k))"
    using pushLog_closed(1) [OF ok1 r1] by (simp add: eq)
  show "listeners (objs (onResolved r s) ! k) = (if k = r then [] else listeners (objs s ! k))"
    using pushStatus_closed(1) [OF ok2 r2] by (simp add: eq)
  show "c \<notin> set (listeners (objs s ! r)) \<Longrightarrow> conns (onResolved r s) ! c = conns s ! c"
    using pushStatus_closed(2) [OF ok2 r2, of c] pushLog_closed(2) [OF ok1 r1, of c]
    by (simp add: eq)
  show "c \<in> set (listeners (objs s ! r)) \<Longrightarrow>
         conns (onResolved r s) ! c
           = (conns s ! c)\<lparr>written := written (conns s ! c)
                                @ sendWrites ''log'' ''Job terminated successfully.''
                                @ sendWrites ''status'' ''terminated'',
                              ended := True\<rparr>"
    using pushStatus_closed(3) [OF ok2 r2, of c] pushLog_closed(3) [OF ok1 r1, of c]
    by (simp add: eq)
qed

lemma onRejected_closed:
  assumes ok: "listenersOk s" and r: "r < length (objs s)" and p: "tasks s r = Pending"
  shows "logs (objs (onRejected r msg s) ! k)
           = (if k = r then logs (objs s ! r) @ [''Job failed: '' @ msg, ''Job terminated successfully.'']
              else logs (objs s ! k))"
    and "listeners (objs (onRejected r msg s) ! k) = (if k = r then [] else listeners (objs s ! k))"
    and "c \<notin> set (listeners (objs s ! r)) \<Longrightarrow> conns (onRejected r msg s) ! c = conns s ! c"
    and "c \<in> set (listeners (objs s ! r)) \<Longrightarrow>
         conns (onRejected r msg s) ! c
           = (conns s ! c)\<lparr>written := written (conns s ! c)
                                @ sendWrites ''log'' (''Job failed: '' @ msg)
                                @ sendWrites ''log'' ''Job terminated successfully.''
                                @ sendWrites ''status'' ''terminated'',
                              ended := True\<rparr>"
proof -
  let ?s1 = "updJob r (\<lambda>j. j\<lparr>status := if aborted j then Terminated else Failed\<rparr>) s"
  let ?s2 = "pushLog r (''Job failed: '' @ msg) ?s1"
  let ?s3 = "pushLog r ''Job terminated successfully.'' ?s2"
  let ?s4 = "pushStatus r ''terminated'' ?s3"
  have ok1: "listenersOk ?s1" using ok by (rule listenersOk_setStatus)
  have r1: "r < length (objs ?s1)" using r by simp
  have ok2: "listenersOk ?s2" using ok1 r1 by (rule listenersOk_pushLog)
  have r2: "r < length (objs ?s2)" using r by simp
  have ok3: "listenersOk ?s3" using ok2 r2 by (rule listenersOk_pushLog)
  have r3: "r < length (objs ?s3)" using r by simp
  have eq: "onRejected r msg s = ?s4\<lparr>tasks := (tasks ?s4)(r := Settled)\<rparr>"
    using r p by (simp add: onRejected_def Let_def)
  show "logs (objs (onRejected r msg s) ! k)
           = (if k = r then logs (objs s ! r) @ [''Job failed: '' @ msg, ''Job terminated successfully.'']
              else logs (objs s ! k))"
    using pushLog_closed(1) [OF ok1 r1] pushLog_closed(1) [OF ok2 r2] by (simp add: eq)
  show "listeners (objs (onRejected r msg s) ! k) = (if k = r then [] else listeners (objs s ! k))"
    using pushStatus_closed(1) [OF ok3 r3] by (simp add: eq)
  show "c \<notin> set (listeners (objs s ! r)) \<Longrightarrow> conns (onRejected r msg s) ! c = conns s ! c"
    using pushStatus_closed(2) [OF ok3 r3, of c] pushLog_closed(2) [OF ok2 r2, of c]
      pushLog_closed(2) [OF ok1 r1, of c]
    by (simp add: eq)
  show "c \<in> set (listeners (objs s ! r)) \<Longrightarrow>
         conns (onRejected r msg s) ! c
           = (conns s ! c)\<lparr>written := written (conns s ! c)
                                @ sendWrites ''log'' (''Job failed: '' @ msg)
                                @ sendWrites ''log'' ''Job terminated successfully.''
                                @ sendWrites ''status'' ''terminated'',
                              ended := True\<rparr>"
    using pushStatus_closed(3) [OF ok3 r3, of c] pushLog_closed(3) [OF ok2 r2, of c]
      pushLog_closed(3) [OF ok1 r1, of c]
    by (simp add: eq)
qed

lemma settled_step:
  assumes "r < length (objs s)" "tasks s r \<noteq> Pending"
  shows "r < length (objs (step mx s e)) \<and> tasks (step mx s e) r \<noteq> Pending
         \<and> status (objs (step mx s e) ! r) = status (objs s ! r)"
proof (cases e)
  case (Start i req)
  with assms show ?thesis
    using start_state_cases [of mx i req s] by (auto simp: nth_append)
next
  case (Resolved k)
  with assms show ?thesis
    by (cases "k < length (objs s) \<and> tasks s k = Pending") (auto simp: settle_status)
next
  case (Rejected k msg)
  with assms show ?thesis
    by (cases "k < length (objs s) \<and> tasks s k = Pending") (auto simp: settle_status)
next
  case (Finally k)
  with assms show ?thesis by (auto simp: onFinally_def)
qed (use assms in simp_all)

lemma settled_run:
  "r < length (objs s) \<Longrightarrow> tasks s r \<noteq> Pending \<Longrightarrow>
   r < length (objs (run mx s es)) \<and> tasks (run mx s es) r \<noteq> Pending
   \<and> status (objs (run mx s es) ! r) = status (objs s ! r)"
proof (induction es arbitrary: s)
  case Nil
  then show ?case by (simp add: run_simps)
next
  case (Cons e es)
  note st = settled_step [OF Cons.prems, of mx e]
  from st have a: "r < length (objs (step mx s e))" and b: "tasks (step mx s e) r \<noteq> Pending"
    by simp_all
  from Cons.IH [OF a b] st show ?case by (simp add: run_simps)
qed

text \<open>
  Claim C2. A job whose promise chain is pending is \<open>running\<close>. When the task's promise
  resolves, the job's status becomes \<open>completed\<close> if the cancellation token is not set and
  \<open>terminated\<close> if it is; when it rejects, the status becomes \<open>failed\<close> if the token is
  not set and \<open>terminated\<close> if it is, and the failure message is appended to the job's log.
  The status so set is final: no later event changes it.
\<close>

theorem terminal_status:
  assumes "s = run mx init es" and "r < length (objs s)" and "tasks s r = Pending"
  shows "status (objs s ! r) = Running
         \<and> status (objs (run mx (onResolved r s) es') ! r)
             = (if aborted (objs s ! r) then Terminated else Completed)
         \<and> status (objs (run mx (onRejected r msg s) es') ! r)
             = (if aborted (objs s ! r) then Terminated else Failed)
         \<and> logs (objs (onRejected r msg s) ! r)
             = logs (objs s ! r) @ [''Job failed: '' @ msg, ''Job terminated successfully.'']"
proof -
  from assms(1) have wf: "wellFormed s" by (simp add: wellFormed_run wellFormed_init)
  then have ok: "listenersOk s" and ph: "phasesOk s" by (simp_all add: wellFormed_def)
  from ph assms(2,3) have 1: "status (objs s ! r) = Running" by (simp add: phasesOk_def)
  have a: "r < length (objs (onResolved r s))" "tasks (onResolved r s) r \<noteq> Pending"
    using assms(2,3) by (simp_all add: settle_status)
  have b: "r < length (objs (onRejected r msg s))" "tasks (onRejected r msg s) r \<noteq> Pending"
    using assms(2,3) by (simp_all add: settle_status)
  have 2: "status (objs (run mx (onResolved r s) es') ! r)
             = (if aborted (objs s ! r) then Terminated else Completed)"
    using settled_run [OF a, of mx es'] assms(2,3) by (simp add: settle_status)
  have 3: "status (objs (run mx (onRejected r msg s) es') ! r)
             = (if aborted (objs s ! r) then Terminated else Failed)"
    using settled_run [OF b, of mx es'] assms(2,3) by (simp add: settle_status)
  have 4: "logs (objs (onRejected r msg s) ! r)
             = logs (objs s ! r) @ [''Job failed: '' @ msg, ''Job terminated successfully.'']"
    using onRejected_closed(1) [OF ok assms(2,3), of msg r] by simp
  from 1 2 3 4 show ?thesis by blast
qed

lemma one_started:
  "objs (run (Finite 3) init [Start ''a'' credentials])
     = [\<lparr>job_id = ''a'', status = Running, logs = [''Job started.''], listeners = [], aborted = False\<rparr>]"
  "tasks (run (Finite 3) init [Start ''a'' credentials]) 0 = Pending"
  "jobs (run (Finite 3) init [Start ''a'' credentials]) ''a'' = Some 0"
  "jobs (run (Finite 3) init [Start ''a'' credentials]) ''b'' = None"
  "logSinks (run (Finite 3) init [Start ''a'' credentials]) ''a'' = Some 0"
  "runningJobs (run (Finite 3) init [Start ''a'' credentials]) = [''a'']"
  "conns (run (Finite 3) init [Start ''a'' credentials]) = []"
  by (simp_all add: run_simps worker_defs)

lemma started_then_ended:
  "endJob ''a'' (run (Finite 3) init [Start ''a'' credentials])
     = (AcceptedEnd, run (Finite 3) init [Start ''a'' credentials, End ''a''])"
  "objs (run (Finite 3) init [Start ''a'' credentials, End ''a''])
     = [\<lparr>job_id = ''a'', status = Running, logs = [''Job started.'', ''Termination requested.''],
         listeners = [], aborted = True\<rparr>]"
  "tasks (run (Finite 3) init [Start ''a'' credentials, End ''a'']) 0 = Pending"
  by (simp_all add: run_simps worker_defs)

theorem terminal_status_witness:
  "status (objs (run (Finite 3) (onResolved 0 (run (Finite 3) init [Start ''a'' credentials])) [Finally 0, End ''a'']) ! 0)
     = Completed
   \<and> status (objs (run (Finite 3) (onRejected 0 ''boom'' (run (Finite 3) init [Start ''a'' credentials])) [Finally 0]) ! 0)
     = Failed
   \<and> logs (objs (onRejected 0 ''boom'' (run (Finite 3) init [Start ''a'' credentials])) ! 0)
     = [''Job started.'', ''Job failed: boom'', ''Job terminated successfully.'']
   \<and> status (objs (run (Finite 3) (onResolved 0 (run (Finite 3) init [Start ''a'' credentials, End ''a''])) [Finally 0]) ! 0)
     = Terminated
   \<and> status (objs (run (Finite 3) (onRejected 0 ''boom'' (run (Finite 3) init [Start ''a'' credentials, End ''a''])) [Finally 0]) ! 0)
     = Terminated"
proof -
  have h: "0 < length (objs (run (Finite 3) init [Start ''a'' credentials]))"
    "tasks (run (Finite 3) init [Start ''a'' credentials]) 0 = Pending"
    by (simp_all add: one_started)
  have h': "0 < length (objs (run (Finite 3) init [Start ''a'' credentials, End ''a'']))"
    "tasks (run (Finite 3) init [Start ''a'' credentials, End ''a'']) 0 = Pending"
    by (simp_all add: started_then_ended(2,3))
  note t = terminal_status [OF refl h]
  note t' = terminal_status [OF refl h']
  from t [of "[Finally 0, End ''a'']" "''boom''"] t [of "[Finally 0]" "''boom''"]
       t' [of "[Finally 0]" "''boom''"]
  show ?thesis by (simp add: one_started started_then_ended(2))
qed

section \<open>The end endpoint\<close>

text \<open>
  Claim C5. An unknown id is answered \<open>NotFound\<close>; a job that is not \<open>running\<close> is answered
  \<open>Conflict\<close>; in both cases nothing changes. Otherwise the answer is 202, the job's
  cancellation token is set and the line \<open>Termination requested.\<close> is appended to its log.
  In no case does the endpoint change the status of any job.
\<close>

theorem end_request:
  assumes "s = run mx init es"
  shows "(jobs s i = None \<longrightarrow> endJob i s = (NotFound, s))
         \<and> (jobs s i = Some r \<and> status (objs s ! r) \<noteq> Running
              \<longrightarrow> endJob i s = (Conflict (status (objs s ! r)), s))
         \<and> (jobs s i = Some r \<and> status (objs s ! r) = Running
              \<longrightarrow> fst (endJob i s) = AcceptedEnd \<and> httpStatus (fst (endJob i s)) = 202
                  \<and> aborted (objs (snd (endJob i s)) ! r)
                  \<and> logs (objs (snd (endJob i s)) ! r)
                      = logs (objs s ! r) @ [''Termination requested.''])
         \<and> status (objs (snd (endJob i s)) ! k) = status (objs s ! k)"
proof -
  from assms have wf: "wellFormed s" by (simp add: wellFormed_run wellFormed_init)
  have 3: "jobs s i = Some r \<and> status (objs s ! r) = Running
              \<longrightarrow> fst (endJob i s) = AcceptedEnd \<and> httpStatus (fst (endJob i s)) = 202
                  \<and> aborted (objs (snd (endJob i s)) ! r)
                  \<and> logs (objs (snd (endJob i s)) ! r)
                      = logs (objs s ! r) @ [''Termination requested.'']"
  proof (intro impI, elim conjE)
    assume j: "jobs s i = Some r" and st: "status (objs s ! r) = Running"
    from wf j have r: "r < length (objs s)" by (simp add: wellFormed_def refsOk_def)
    from r show "fst (endJob i s) = AcceptedEnd \<and> httpStatus (fst (endJob i s)) = 202
                  \<and> aborted (objs (snd (endJob i s)) ! r)
                  \<and> logs (objs (snd (endJob i s)) ! r)
                      = logs (objs s ! r) @ [''Termination requested.'']"
      by (simp add: endJob_cases(3) [OF j st] pushLog_logs)
  qed
  show ?thesis
    using 3 by (simp add: endJob_cases)
qed

theorem end_request_witness:
  "endJob ''b'' (run (Finite 3) init [Start ''a'' credentials]) = (NotFound, run (Finite 3) init [Start ''a'' credentials])
   \<and> fst (endJob ''a'' (run (Finite 3) init [Start ''a'' credentials])) = AcceptedEnd
   \<and> aborted (objs (snd (endJob ''a'' (run (Finite 3) init [Start ''a'' credentials]))) ! 0)
   \<and> logs (objs (snd (endJob ''a'' (run (Finite 3) init [Start ''a'' credentials]))) ! 0)
       = [''Job started.'', ''Termination requested.'']
   \<and> status (objs (snd (endJob ''a'' (run (Finite 3) init [Start ''a'' credentials]))) ! 0) = Running"
proof -
  note e = end_request [OF refl, of "Finite 3" "[Start ''a'' credentials]"]
  from e [of "''b''" 0 0] e [of "''a''" 0 0]
  show ?thesis by (simp add: one_started)
qed

section \<open>A start request with an id the registry holds\<close>

lemma credentials_ok: "\<not> falsy (email credentials)" "\<not> falsy (password credentials)"
  by (simp_all add: falsy_def credentials_def)

text \<open>
  Claim C8 as stated fails: the start handler has no check of the id. With the id \<open>a\<close>
  registered and two slots free, a second start request that is given the id \<open>a\<close> is
  answered 202, and the registry's entry for \<open>a\<close> is a new object.
\<close>

theorem duplicate_id_counterexample:
  "fst (start (Finite 3) ''a'' credentials (run (Finite 3) init [Start ''a'' credentials])) = Accepted ''a''
   \<and> jobs (run (Finite 3) init [Start ''a'' credentials]) ''a'' = Some 0
   \<and> jobs (snd (start (Finite 3) ''a'' credentials (run (Finite 3) init [Start ''a'' credentials]))) ''a'' = Some 1"
  by (simp add: one_started start_cases credentials_ok)

text \<open>
  Claim C8, amended. A start request that passes the capacity and credential checks and is
  given an id the registry holds does not fail: it is answered 202 with that id; a new
  running job object is allocated with the log \<open>Job started.\<close>, no listener and an unset
  token, and the registry entry and the log sink of the id are rebound to it. The objects
  allocated before, the earlier holder of the id among them, are left as they were; the
  earlier holder is no longer the registry's entry.
\<close>

theorem duplicate_id_overwrites:
  assumes "s = run mx init es" and "jobs s i = Some r"
    and "\<not> greaterEq (Finite (int (length (runningJobs s)))) mx"
    and "\<not> falsy (email req)" and "\<not> falsy (password req)"
  shows "fst (start mx i req s) = Accepted i
         \<and> objs (snd (start mx i req s))
             = objs s @ [\<lparr>job_id = i, status = Running, logs = [''Job started.''],
                          listeners = [], aborted = False\<rparr>]
         \<and> jobs (snd (start mx i req s)) i = Some (length (objs s))
         \<and> logSinks (snd (start mx i req s)) i = Some (length (objs s))
         \<and> r < length (objs s)"
proof -
  from assms(1) have wf: "wellFormed s" by (simp add: wellFormed_run wellFormed_init)
  with assms(2) have r: "r < length (objs s)" by (simp add: wellFormed_def refsOk_def)
  have "objs (pushLog (length (objs s)) ''Job started.'' (register i s))
          = objs s @ [\<lparr>job_id = i, status = Running, logs = [''Job started.''],
                          listeners = [], aborted = False\<rparr>]"
    by (simp add: pushLog_objs newJob_def)
  with r show ?thesis
    by (simp add: start_cases(3) [OF assms(3,4,5)])
qed

theorem duplicate_id_overwrites_witness:
  "fst (start (Finite 3) ''a'' credentials (run (Finite 3) init [Start ''a'' credentials])) = Accepted ''a''
   \<and> objs (snd (start (Finite 3) ''a'' credentials (run (Finite 3) init [Start ''a'' credentials])))
       = [\<lparr>job_id = ''a'', status = Running, logs = [''Job started.''], listeners = [], aborted = False\<rparr>,
          \<lparr>job_id = ''a'', status = Running, logs = [''Job started.''], listeners = [], aborted = False\<rparr>]
   \<and> jobs (snd (start (Finite 3) ''a'' credentials (run (Finite 3) init [Start ''a'' credentials]))) ''a'' = Some 1"
proof -
  have h: "jobs (run (Finite 3) init [Start ''a'' credentials]) ''a'' = Some 0"
    "\<not> greaterEq (Finite (int (length (runningJobs (run (Finite 3) init [Start ''a'' credentials])))))
         (Finite 3)"
    "\<not> falsy (email credentials)" "\<not> falsy (password credentials)"
    by (simp_all add: one_started credentials_ok)
  from duplicate_id_overwrites [OF refl h] show ?thesis
    by (simp add: one_started)
qed

section \<open>The terminal status event\<close>

lemma status_frame:
  "sendWrites ''status'' ''terminated''
     = [''event: status'' @ [CHR 0x0A], ''data: terminated'' @ [CHR 0x0A, CHR 0x0A]]"
  by (simp add: sendWrites_def escapeNewlines_def)

lemma reachable_wellFormed: "wellFormed (run mx init es)"
  by (simp add: wellFormed_run wellFormed_init)

text \<open>
  Claim C10. When a job finalizes, by the \<open>then\<close> handler or by the \<open>catch\<close> handler and
  whatever status the handler gives the job, every listener attached at that moment is sent
  the remaining log lines and then one status event whose payload is the text
  \<open>terminated\<close>; its response is ended and the job's listener set is left empty.
\<close>

theorem terminal_event_payload:
  assumes "s = run mx init es" and "r < length (objs s)" and "tasks s r = Pending"
    and "c \<in> set (listeners (objs s ! r))"
  shows "written (conns (onResolved r s) ! c)
           = written (conns s ! c) @ sendWrites ''log'' ''Job terminated successfully.''
               @ [''event: status'' @ [CHR 0x0A], ''data: terminated'' @ [CHR 0x0A, CHR 0x0A]]
         \<and> written (conns (onRejected r msg s) ! c)
           = written (conns s ! c) @ sendWrites ''log'' (''Job failed: '' @ msg)
               @ sendWrites ''log'' ''Job terminated successfully.''
               @ [''event: status'' @ [CHR 0x0A], ''data: terminated'' @ [CHR 0x0A, CHR 0x0A]]
         \<and> ended (conns (onResolved r s) ! c) \<and> ended (conns (onRejected r msg s) ! c)
         \<and> listeners (objs (onResolved r s) ! r) = []
         \<and> listeners (objs (onRejected r msg s) ! r) = []
         \<and> status (objs (onResolved r s) ! r) = (if aborted (objs s ! r) then Terminated else Completed)
         \<and> status (objs (onRejected r msg s) ! r) = (if aborted (objs s ! r) then Terminated else Failed)"
proof -
  from assms(1) have "wellFormed s" by (simp add: reachable_wellFormed)
  then have ok: "listenersOk s" by (simp add: wellFormed_def)
  note a = onResolved_closed [OF ok assms(2,3)]
  note b = onRejected_closed [OF ok assms(2,3)]
  from a(4) [OF assms(4)] b(4) [OF assms(4), of msg] a(2) [of r] b(2) [of msg r] assms(2,3)
  show ?thesis
    by (simp add: settle_status status_frame)
qed

lemma started_streamed:
  "objs (run (Finite 3) init [Start ''a'' credentials, Stream ''a''])
     = [\<lparr>job_id = ''a'', status = Running, logs = [''Job started.''], listeners = [0], aborted = False\<rparr>]"
  "tasks (run (Finite 3) init [Start ''a'' credentials, Stream ''a'']) 0 = Pending"
  "conns (run (Finite 3) init [Start ''a'' credentials, Stream ''a''])
     = [\<lparr>written = sendWrites ''log'' ''Job started.'', ended = False, owner = 0\<rparr>]"
  by (simp_all add: run_simps worker_defs)

theorem terminal_event_payload_witness:
  "written (conns (onResolved 0 (run (Finite 3) init [Start ''a'' credentials, Stream ''a''])) ! 0)
     = sendWrites ''log'' ''Job started.'' @ sendWrites ''log'' ''Job terminated successfully.''
        @ [''event: status'' @ [CHR 0x0A], ''data: terminated'' @ [CHR 0x0A, CHR 0x0A]]
   \<and> status (objs (onResolved 0 (run (Finite 3) init [Start ''a'' credentials, Stream ''a''])) ! 0) = Completed
   \<and> written (conns (onRejected 0 ''boom'' (run (Finite 3) init [Start ''a'' credentials, Stream ''a''])) ! 0)
     = sendWrites ''log'' ''Job started.'' @ sendWrites ''log'' ''Job failed: boom''
        @ sendWrites ''log'' ''Job terminated successfully.''
        @ [''event: status'' @ [CHR 0x0A], ''data: terminated'' @ [CHR 0x0A, CHR 0x0A]]
   \<and> status (objs (onRejected 0 ''boom'' (run (Finite 3) init [Start ''a'' credentials, Stream ''a''])) ! 0) = Failed
   \<and> ended (conns (onResolved 0 (run (Finite 3) init [Start ''a'' credentials, Stream ''a''])) ! 0)"
proof -
  have h: "0 < length (objs (run (Finite 3) init [Start ''a'' credentials, Stream ''a'']))"
    "tasks (run (Finite 3) init [Start ''a'' credentials, Stream ''a'']) 0 = Pending"
    "0 \<in> set (listeners (objs (run (Finite 3) init [Start ''a'' credentials, Stream ''a'']) ! 0))"
    by (simp_all add: started_streamed)
  from terminal_event_payload [OF refl h, of "''boom''"] show ?thesis
    by (simp add: started_streamed)
qed


section \<open>Order of log lines and the terminal status event\<close>

lemma print_logs_unrouted:
  assumes "\<not> routedTo s r (Print ctx lvl formatted ts)"
  shows "logs (objs (print ctx lvl formatted ts s) ! r) = logs (objs s ! r)"
proof (cases ctx)
  case None
  then show ?thesis by (simp add: print_def emit_cases)
next
  case (Some i)
  show ?thesis
  proof (cases "logSinks s i")
    case None
    with Some show ?thesis by (simp add: print_def emit_cases)
  next
    case (Some k)
    with assms \<open>ctx = Some i\<close> have "r \<noteq> k" by auto
    with Some \<open>ctx = Some i\<close> show ?thesis
      by (simp add: print_def emit_cases pushAll_logs)
  qed
qed

lemma quiet_step:
  assumes wf: "wellFormed s" and r: "r < length (objs s)" and p: "tasks s r \<noteq> Pending"
    and e: "\<not> routedTo s r e"
  shows "logs (objs (step mx s e) ! r) = logs (objs s ! r)"
proof (cases e)
  case (Start i req)
  from r show ?thesis
    using start_state_cases [of mx i req s]
    by (auto simp: Start pushLog_logs nth_append)
next
  case (End i)
  show ?thesis
  proof (cases "jobs s i")
    case None
    then show ?thesis by (simp add: End endJob_cases)
  next
    case (Some k)
    show ?thesis
    proof (cases "status (objs s ! k) = Running")
      case True
      from wf r p have "status (objs s ! r) \<noteq> Running"
        by (simp add: wellFormed_def phasesOk_def)
      with True have "r \<noteq> k" by auto
      then show ?thesis
        by (simp add: End endJob_cases(3) [OF Some True] pushLog_logs)
    next
      case False
      with Some show ?thesis by (simp add: End endJob_cases)
    qed
  qed
next
  case (Resolved k)
  show ?thesis
  proof (cases "k < length (objs s) \<and> tasks s k = Pending")
    case True
    with p have "r \<noteq> k" by auto
    moreover from wf have "listenersOk s" by (simp add: wellFormed_def)
    ultimately show ?thesis
      using True by (simp add: Resolved onResolved_closed)
  next
    case False
    then show ?thesis by (simp add: Resolved settle_status)
  qed
next
  case (Rejected k msg)
  show ?thesis
  proof (cases "k < length (objs s) \<and> tasks s k = Pending")
    case True
    with p have "r \<noteq> k" by auto
    moreover from wf have "listenersOk s" by (simp add: wellFormed_def)
    ultimately show ?thesis
      using True by (simp add: Rejected onRejected_closed)
  next
    case False
    then show ?thesis by (simp add: Rejected settle_status)
  qed
next
  case (Print ctx lvl formatted ts)
  with e show ?thesis by (simp add: print_logs_unrouted)
qed simp_all

lemma finished_step:
  assumes wf: "wellFormed s" and r: "r < length (objs s)" and p: "tasks s r = Finished"
  shows "logs (objs (step mx s e) ! r) = logs (objs s ! r)
         \<and> tasks (step mx s e) r = Finished \<and> r < length (objs (step mx s e))"
proof -
  from wf p have nosink: "\<And>i. logSinks s i \<noteq> Some r"
    by (auto simp: wellFormed_def phasesOk_def)
  from nosink have "\<not> routedTo s r e"
    by (cases "(s, r, e)" rule: routedTo.cases) simp_all
  with wf r p have 1: "logs (objs (step mx s e) ! r) = logs (objs s ! r)"
    by (simp add: quiet_step)
  have 2: "tasks (step mx s e) r = Finished \<and> r < length (objs (step mx s e))"
  proof (cases e)
    case (Start i req)
    with r p show ?thesis
      using start_state_cases [of mx i req s] by auto
  next
    case (Resolved k)
    with r p show ?thesis
      by (cases "k < length (objs s) \<and> tasks s k = Pending") (auto simp: settle_status)
  next
    case (Rejected k msg)
    with r p show ?thesis
      by (cases "k < length (objs s) \<and> tasks s k = Pending") (auto simp: settle_status)
  next
    case (Finally k)
    with r p show ?thesis by (auto simp: onFinally_def)
  qed (use r p in simp_all)
  from 1 2 show ?thesis by simp
qed

lemma finished_run:
  "wellFormed s \<Longrightarrow> r < length (objs s) \<Longrightarrow> tasks s r = Finished \<Longrightarrow>
   logs (objs (run mx s es) ! r) = logs (objs s ! r)"
proof (induction es arbitrary: s)
  case Nil
  then show ?case by (simp add: run_simps)
next
  case (Cons e es)
  note f = finished_step [OF Cons.prems, of mx e]
  from Cons.prems(1) have w: "wellFormed (step mx s e)" by (rule wellFormed_step)
  from f have a: "r < length (objs (step mx s e))" and b: "tasks (step mx s e) r = Finished"
    by simp_all
  from Cons.IH [OF w a b] f show ?case by (simp add: run_simps)
qed

lemma logFrames_append: "logFrames (xs @ ys) = logFrames xs @ logFrames ys"
  by (simp add: logFrames_def)

lemma logFrames_simps: "logFrames [] = []" "logFrames (l # ls) = sendWrites ''log'' l @ logFrames ls"
  by (simp_all add: logFrames_def)

lemma log_frame:
  "sendWrites ''log'' l
     = [''event: log'' @ [CHR 0x0A], ''data: '' @ escapeNewlines l @ [CHR 0x0A, CHR 0x0A]]"
  by (simp add: sendWrites_def)

lemma logFrames_literal:
  "logFrames ls
     = concat (map (\<lambda>l. [''event: log'' @ [CHR 0x0A],
                          ''data: '' @ escapeNewlines l @ [CHR 0x0A, CHR 0x0A]]) ls)"
  by (induction ls) (simp_all add: logFrames_simps sendWrites_def)

lemma settle_delivery:
  assumes wf: "wellFormed s" and r: "r < length (objs s)" and p: "tasks s r = Pending"
    and c: "c \<in> set (listeners (objs s ! r))"
  shows "written (conns (onResolved r s) ! c)
           = logFrames (logs (objs (onResolved r s) ! r)) @ sendWrites ''status'' ''terminated''"
    and "written (conns (onRejected r msg s) ! c)
           = logFrames (logs (objs (onRejected r msg s) ! r)) @ sendWrites ''status'' ''terminated''"
proof -
  from wf have ok: "listenersOk s" by (simp add: wellFormed_def)
  with r c have w: "written (conns s ! c) = logFrames (logs (objs s ! r))"
    by (simp add: listenersOk_def)
  show "written (conns (onResolved r s) ! c)
           = logFrames (logs (objs (onResolved r s) ! r)) @ sendWrites ''status'' ''terminated''"
    using onResolved_closed(1,4) [OF ok r p] c w
    by (simp add: logFrames_append logFrames_simps)
  show "written (conns (onRejected r msg s) ! c)
           = logFrames (logs (objs (onRejected r msg s) ! r)) @ sendWrites ''status'' ''terminated''"
    using onRejected_closed(1,4) [OF ok r p] c w
    by (simp add: logFrames_append logFrames_simps)
qed

text \<open>
  Claim C6 as stated fails in its second half: the \<open>finally\<close> handler, which removes the
  sink, runs after the handler that delivers the terminal status event. A log call made
  under the job's binding in between is appended to the buffer.
\<close>

theorem late_log_counterexample:
  "tasks (run (Finite 3) init [Start ''a'' credentials, Stream ''a'', Resolved 0]) 0 = Settled
   \<and> written (conns (run (Finite 3) init [Start ''a'' credentials, Stream ''a'', Resolved 0]) ! 0)
       = [''event: log'' @ [CHR 0x0A], ''data: Job started.'' @ [CHR 0x0A, CHR 0x0A],
          ''event: log'' @ [CHR 0x0A], ''data: Job terminated successfully.'' @ [CHR 0x0A, CHR 0x0A],
          ''event: status'' @ [CHR 0x0A], ''data: terminated'' @ [CHR 0x0A, CHR 0x0A]]
   \<and> ended (conns (run (Finite 3) init [Start ''a'' credentials, Stream ''a'', Resolved 0]) ! 0)
   \<and> logs (objs (run (Finite 3) init [Start ''a'' credentials, Stream ''a'', Resolved 0]) ! 0)
       = [''Job started.'', ''Job terminated successfully.'']
   \<and> logs (objs (run (Finite 3) init [Start ''a'' credentials, Stream ''a'', Resolved 0,
                               Print (Some ''a'') ''info'' ''late'' ''12:00:00'']) ! 0)
       = [''Job started.'', ''Job terminated successfully.'', ''late'']"
  by (simp add: run_simps worker_defs)

text \<open>
  Claim C6, amended. Every listener attached when a job finalizes has received, before the
  terminal status event, one log event for every line of the job's buffer, the lines the
  finalizing handler appends included. After the terminal status event a line is appended
  to that job's buffer only by a log call that the logger routes to the job's sink: no
  other event of the worker, a log call routed elsewhere or to no sink included, changes
  the buffer. Once the \<open>finally\<close> handler of the job has run, no sink is registered for the
  job and no event at all appends to its buffer.
\<close>

theorem terminal_event_order:
  assumes "s = run mx init es" and "r < length (objs s)"
  shows "(tasks s r = Pending \<and> c \<in> set (listeners (objs s ! r))
            \<longrightarrow> written (conns (onResolved r s) ! c)
                  = concat (map (\<lambda>l. [''event: log'' @ [CHR 0x0A],
                                        ''data: '' @ escapeNewlines l @ [CHR 0x0A, CHR 0x0A]])
                         (logs (objs (onResolved r s) ! r)))
                    @ [''event: status'' @ [CHR 0x0A], ''data: terminated'' @ [CHR 0x0A, CHR 0x0A]]
                \<and> written (conns (onRejected r msg s) ! c)
                  = concat (map (\<lambda>l. [''event: log'' @ [CHR 0x0A],
                                        ''data: '' @ escapeNewlines l @ [CHR 0x0A, CHR 0x0A]])
                         (logs (objs (onRejected r msg s) ! r)))
                    @ [''event: status'' @ [CHR 0x0A], ''data: terminated'' @ [CHR 0x0A, CHR 0x0A]])
         \<and> (tasks s r \<noteq> Pending \<and> \<not> routedTo s r e
            \<longrightarrow> logs (objs (step mx s e) ! r) = logs (objs s ! r))
         \<and> (tasks s r = Finished
            \<longrightarrow> logSinks s i \<noteq> Some r \<and> \<not> routedTo s r e'
              \<and> logs (objs (run mx s es') ! r) = logs (objs s ! r))"
proof -
  from assms(1) have wf: "wellFormed s" by (simp add: reachable_wellFormed)
  have 1: "tasks s r = Pending \<and> c \<in> set (listeners (objs s ! r))
            \<longrightarrow> written (conns (onResolved r s) ! c)
                  = logFrames (logs (objs (onResolved r s) ! r)) @ sendWrites ''status'' ''terminated''
                \<and> written (conns (onRejected r msg s) ! c)
                  = logFrames (logs (objs (onRejected r msg s) ! r)) @ sendWrites ''status'' ''terminated''"
    using settle_delivery [OF wf assms(2)] by simp
  have 2: "tasks s r \<noteq> Pending \<and> \<not> routedTo s r e
            \<longrightarrow> logs (objs (step mx s e) ! r) = logs (objs s ! r)"
    using quiet_step [OF wf assms(2)] by simp
  have 3: "tasks s r = Finished
            \<longrightarrow> logSinks s i \<noteq> Some r \<and> \<not> routedTo s r e'
              \<and> logs (objs (run mx s es') ! r) = logs (objs s ! r)"
  proof
    assume p: "tasks s r = Finished"
    with wf have nosink: "\<And>k. logSinks s k \<noteq> Some r"
      by (auto simp: wellFormed_def phasesOk_def)
    then have "\<not> routedTo s r e'"
      by (cases "(s, r, e')" rule: routedTo.cases) simp_all
    with nosink finished_run [OF wf assms(2) p]
    show "logSinks s i \<noteq> Some r \<and> \<not> routedTo s r e'
            \<and> logs (objs (run mx s es') ! r) = logs (objs s ! r)"
      by simp
  qed
  show ?thesis
    unfolding logFrames_literal [symmetric] log_frame [symmetric] logFrames_def [symmetric]
      status_frame [symmetric]
    using 1 2 3 by blast
qed

lemma streamed_settled:
  "objs (run (Finite 3) init [Start ''a'' credentials, Stream ''a'', Resolved 0])
     = [\<lparr>job_id = ''a'', status = Completed,
         logs = [''Job started.'', ''Job terminated successfully.''], listeners = [], aborted = False\<rparr>]"
  "tasks (run (Finite 3) init [Start ''a'' credentials, Stream ''a'', Resolved 0]) 0 = Settled"
  "jobs (run (Finite 3) init [Start ''a'' credentials, Stream ''a'', Resolved 0]) ''a'' = Some 0"
  by (simp_all add: run_simps worker_defs)

lemma streamed_finished:
  "objs (run (Finite 3) init [Start ''a'' credentials, Stream ''a'', Resolved 0, Finally 0])
     = [\<lparr>job_id = ''a'', status = Completed,
         logs = [''Job started.'', ''Job terminated successfully.''], listeners = [], aborted = False\<rparr>]"
  "tasks (run (Finite 3) init [Start ''a'' credentials, Stream ''a'', Resolved 0, Finally 0]) 0 = Finished"
  by (simp_all add: run_simps worker_defs)

lemma two_jobs_one_settled:
  "length (objs (run (Finite 3) init [Start ''a'' credentials, Start ''b'' credentials, Resolved 0])) = 2"
  "tasks (run (Finite 3) init [Start ''a'' credentials, Start ''b'' credentials, Resolved 0]) 0 = Settled"
  "logSinks (run (Finite 3) init [Start ''a'' credentials, Start ''b'' credentials, Resolved 0]) ''b'' = Some 1"
  "logs (objs (run (Finite 3) init [Start ''a'' credentials, Start ''b'' credentials, Resolved 0]) ! 0) = [''Job started.'', ''Job terminated successfully.'']"
  "logs (objs (run (Finite 3) init [Start ''a'' credentials, Start ''b'' credentials, Resolved 0]) ! 1) = [''Job started.'']"
  "logs (objs (step (Finite 3) (run (Finite 3) init [Start ''a'' credentials, Start ''b'' credentials, Resolved 0])
                 (Print (Some ''b'') ''info'' ''late'' ''12:00:00'')) ! 1)
     = [''Job started.'', ''late'']"
  by (simp_all add: run_simps worker_defs)

theorem terminal_event_order_witness:
  "written (conns (onResolved 0 (run (Finite 3) init [Start ''a'' credentials, Stream ''a''])) ! 0)
     = [''event: log'' @ [CHR 0x0A], ''data: Job started.'' @ [CHR 0x0A, CHR 0x0A],
        ''event: log'' @ [CHR 0x0A], ''data: Job terminated successfully.'' @ [CHR 0x0A, CHR 0x0A],
        ''event: status'' @ [CHR 0x0A], ''data: terminated'' @ [CHR 0x0A, CHR 0x0A]]
   \<and> logs (objs (step (Finite 3) (run (Finite 3) init [Start ''a'' credentials, Stream ''a'', Resolved 0]) (End ''a'')) ! 0)
     = [''Job started.'', ''Job terminated successfully.'']
   \<and> logs (objs (step (Finite 3) (run (Finite 3) init [Start ''a'' credentials, Start ''b'' credentials, Resolved 0])
                  (Print (Some ''b'') ''info'' ''late'' ''12:00:00'')) ! 0)
     = [''Job started.'', ''Job terminated successfully.'']
   \<and> logSinks (run (Finite 3) init [Start ''a'' credentials, Stream ''a'', Resolved 0, Finally 0]) ''a'' \<noteq> Some 0
   \<and> logs (objs (run (Finite 3) (run (Finite 3) init [Start ''a'' credentials, Stream ''a'', Resolved 0, Finally 0])
                    [Print (Some ''a'') ''info'' ''late'' ''12:00:00'', End ''a'']) ! 0)
     = [''Job started.'', ''Job terminated successfully.'']"
proof -
  have a: "0 < length (objs (run (Finite 3) init [Start ''a'' credentials, Stream ''a'']))"
    and a': "tasks (run (Finite 3) init [Start ''a'' credentials, Stream ''a'']) 0 = Pending"
      "0 \<in> set (listeners (objs (run (Finite 3) init [Start ''a'' credentials, Stream ''a'']) ! 0))"
    by (simp_all add: started_streamed)
  have b: "0 < length (objs (run (Finite 3) init [Start ''a'' credentials, Stream ''a'', Resolved 0]))"
    and b': "tasks (run (Finite 3) init [Start ''a'' credentials, Stream ''a'', Resolved 0]) 0 \<noteq> Pending"
      "\<not> routedTo (run (Finite 3) init [Start ''a'' credentials, Stream ''a'', Resolved 0]) 0 (End ''a'')"
    by (simp_all add: streamed_settled)
  have c: "0 < length (objs (run (Finite 3) init [Start ''a'' credentials, Stream ''a'', Resolved 0, Finally 0]))"
    and c': "tasks (run (Finite 3) init [Start ''a'' credentials, Stream ''a'', Resolved 0, Finally 0]) 0 = Finished"
    by (simp_all add: streamed_finished)
  have d: "0 < length (objs (run (Finite 3) init [Start ''a'' credentials, Start ''b'' credentials, Resolved 0]))"
    and d': "tasks (run (Finite 3) init [Start ''a'' credentials, Start ''b'' credentials, Resolved 0]) 0 \<noteq> Pending"
      "\<not> routedTo (run (Finite 3) init [Start ''a'' credentials, Start ''b'' credentials, Resolved 0]) 0 (Print (Some ''b'') ''info'' ''late'' ''12:00:00'')"
    by (simp_all add: two_jobs_one_settled)
  have l: "logs (objs (onResolved 0 (run (Finite 3) init [Start ''a'' credentials, Stream ''a''])) ! 0)
             = [''Job started.'', ''Job terminated successfully.'']"
    using streamed_settled(1) by (simp add: run_simps run_def)
  note t1 = terminal_event_order [OF refl a, where c = 0 and msg = "''x''"
      and e = "End ''a''" and i = "''a''" and e' = "End ''a''" and es' = "[]"]
  note t2 = terminal_event_order [OF refl b, where c = 0 and msg = "''x''"
      and e = "End ''a''" and i = "''a''" and e' = "End ''a''" and es' = "[]"]
  note t3 = terminal_event_order [OF refl d, where c = 0 and msg = "''x''"
      and e = "Print (Some ''b'') ''info'' ''late'' ''12:00:00''" and i = "''a''"
      and e' = "End ''a''" and es' = "[]"]
  note t4 = terminal_event_order [OF refl c, where c = 0 and msg = "''x''"
      and e = "End ''a''" and i = "''a''" and e' = "End ''a''"
      and es' = "[Print (Some ''a'') ''info'' ''late'' ''12:00:00'', End ''a'']"]
  from t1 a' l have 1: "written (conns (onResolved 0 (run (Finite 3) init [Start ''a'' credentials, Stream ''a''])) ! 0)
     = [''event: log'' @ [CHR 0x0A], ''data: Job started.'' @ [CHR 0x0A, CHR 0x0A],
        ''event: log'' @ [CHR 0x0A], ''data: Job terminated successfully.'' @ [CHR 0x0A, CHR 0x0A],
        ''event: status'' @ [CHR 0x0A], ''data: terminated'' @ [CHR 0x0A, CHR 0x0A]]"
    by (simp add: escapeNewlines_def)
  from t2 b' have 2: "logs (objs (step (Finite 3) (run (Finite 3) init [Start ''a'' credentials, Stream ''a'', Resolved 0]) (End ''a'')) ! 0)
     = [''Job started.'', ''Job terminated successfully.'']"
    by (simp add: streamed_settled)
  from t3 d' have 3: "logs (objs (step (Finite 3) (run (Finite 3) init [Start ''a'' credentials, Start ''b'' credentials, Resolved 0])
                  (Print (Some ''b'') ''info'' ''late'' ''12:00:00'')) ! 0)
     = [''Job started.'', ''Job terminated successfully.'']"
    by (simp add: two_jobs_one_settled)
  from t4 c' have 4: "logSinks (run (Finite 3) init [Start ''a'' credentials, Stream ''a'', Resolved 0, Finally 0]) ''a'' \<noteq> Some 0
   \<and> logs (objs (run (Finite 3) (run (Finite 3) init [Start ''a'' credentials, Stream ''a'', Resolved 0, Finally 0])
                    [Print (Some ''a'') ''info'' ''late'' ''12:00:00'', End ''a'']) ! 0)
     = [''Job started.'', ''Job terminated successfully.'']"
    by (simp add: streamed_finished)
  from 1 2 3 4 show ?thesis by blast
qed

section \<open>The stream endpoint\<close>

lemma length_objs_step: "length (objs s) \<le> length (objs (step mx s e))"
proof (cases e)
  case (Start i req)
  then show ?thesis using start_state_cases [of mx i req s] by auto
qed simp_all

lemma length_objs_run: "length (objs s) \<le> length (objs (run mx s es))"
proof (induction es arbitrary: s)
  case Nil
  then show ?case by (simp add: run_simps)
next
  case (Cons e es)
  from length_objs_step [of s mx e] Cons.IH [of "step mx s e"] show ?case
    by (simp add: run_simps)
qed

lemma attached_settle:
  assumes wf: "wellFormed s" and r: "r < length (objs s)" and p: "tasks s r = Pending"
    and c: "c \<in> set (listeners (objs s ! r))"
  shows "ended (conns (onResolved r s) ! c) \<and> c \<notin> set (listeners (objs (onResolved r s) ! r))
         \<and> ended (conns (onRejected r msg s) ! c)
         \<and> c \<notin> set (listeners (objs (onRejected r msg s) ! r))"
proof -
  from wf have ok: "listenersOk s" by (simp add: wellFormed_def)
  from onResolved_closed(2,4) [OF ok r p] onRejected_closed(2,4) [OF ok r p] c
  show ?thesis by simp
qed

lemma subscription_frames:
  assumes "s = run mx init es" and "c = length (conns s)"
  shows "(jobs s i = None \<longrightarrow> stream i s = (NotFound, s) \<and> httpStatus NotFound = 404)
         \<and> (jobs s i = Some r
              \<longrightarrow> fst (stream i s) = EventStream c
                \<and> written (conns (snd (stream i s)) ! c) = logFrames (logs (objs s ! r))
                \<and> listeners (objs (snd (stream i s)) ! r) = listeners (objs s ! r) @ [c]
                \<and> logs (objs (snd (stream i s)) ! r) = logs (objs s ! r))
         \<and> (jobs s i = Some r \<and> s' = run mx (snd (stream i s)) es'
              \<and> c \<in> set (listeners (objs s' ! r))
              \<longrightarrow> written (conns s' ! c) = logFrames (logs (objs s' ! r))
                \<and> written (conns (pushLog r line s') ! c)
                    = logFrames (logs (objs s' ! r)) @ sendWrites ''log'' line
                \<and> (tasks s' r = Pending
                     \<longrightarrow> written (conns (onResolved r s') ! c)
                          = logFrames (logs (objs (onResolved r s') ! r))
                              @ sendWrites ''status'' ''terminated''
                       \<and> written (conns (onRejected r msg s') ! c)
                          = logFrames (logs (objs (onRejected r msg s') ! r))
                              @ sendWrites ''status'' ''terminated''
                       \<and> ended (conns (onResolved r s') ! c)
                       \<and> c \<notin> set (listeners (objs (onResolved r s') ! r))
                       \<and> ended (conns (onRejected r msg s') ! c)
                       \<and> c \<notin> set (listeners (objs (onRejected r msg s') ! r))))"
proof (intro conjI impI)
  from assms(1) have wf: "wellFormed s" by (simp add: reachable_wellFormed)
  then have ok: "listenersOk s" and refs: "refsOk s" by (simp_all add: wellFormed_def)
  {
    assume "jobs s i = None"
    then show "stream i s = (NotFound, s)" by (rule stream_unknown)
  }
  show "httpStatus NotFound = 404" by simp
  {
    assume j: "jobs s i = Some r"
    with refs have r: "r < length (objs s)" by (simp add: refsOk_def)
    from ok r have fresh: "c \<notin> set (listeners (objs s ! r))"
      using assms(2) by (auto simp: listenersOk_def)
    note k = stream_known [OF j]
    show "fst (stream i s) = EventStream c" using k(1) assms(2) by simp
    show "written (conns (snd (stream i s)) ! c) = logFrames (logs (objs s ! r))"
      using k(10) assms(2) by simp
    show "listeners (objs (snd (stream i s)) ! r) = listeners (objs s ! r) @ [c]"
      using r fresh assms(2) by (simp add: k(2) setAdd_new)
    show "logs (objs (snd (stream i s)) ! r) = logs (objs s ! r)" by simp
  }
  {
    assume h: "jobs s i = Some r \<and> s' = run mx (snd (stream i s)) es'
              \<and> c \<in> set (listeners (objs s' ! r))"
    then have j: "jobs s i = Some r" and s': "s' = run mx (snd (stream i s)) es'"
      and c: "c \<in> set (listeners (objs s' ! r))" by blast+
    from j refs have r: "r < length (objs s)" by (simp add: refsOk_def)
    have "wellFormed (step mx s (Stream i))" using wf by (rule wellFormed_step)
    then have wf': "wellFormed s'" using s' by (simp add: wellFormed_run)
    then have ok': "listenersOk s'" by (simp add: wellFormed_def)
    have "length (objs s) \<le> length (objs s')"
      using length_objs_run [of "snd (stream i s)" mx es'] s' by simp
    with r have r': "r < length (objs s')" by simp
    from ok' r' c show w: "written (conns s' ! c) = logFrames (logs (objs s' ! r))"
      by (simp add: listenersOk_def)
    from pushLog_closed(3) [OF ok' r' c] w
    show "written (conns (pushLog r line s') ! c)
            = logFrames (logs (objs s' ! r)) @ sendWrites ''log'' line"
      by simp
    {
      assume p: "tasks s' r = Pending"
      note d = settle_delivery [OF wf' r' p c]
      note a = attached_settle [OF wf' r' p c]
      show "written (conns (onResolved r s') ! c)
              = logFrames (logs (objs (onResolved r s') ! r)) @ sendWrites ''status'' ''terminated''"
        by (rule d(1))
      show "written (conns (onRejected r msg s') ! c)
              = logFrames (logs (objs (onRejected r msg s') ! r)) @ sendWrites ''status'' ''terminated''"
        by (rule d(2))
      from a show "ended (conns (onResolved r s') ! c)" by simp
      from a show "c \<notin> set (listeners (objs (onResolved r s') ! r))" by simp
      from a show "ended (conns (onRejected r msg s') ! c)" by simp
      from a show "c \<notin> set (listeners (objs (onRejected r msg s') ! r))" by simp
    }
  }
qed

lemma escapeNewlines_plain: "CHR 0x0A \<notin> set d \<Longrightarrow> escapeNewlines d = d"
  by (induction d) (auto simp: escapeNewlines_def)

lemma escapeNewlines_break:
  "escapeNewlines (a @ CHR 0x0A # b) = escapeNewlines a @ [CHR 0x5C, CHR ''n''] @ escapeNewlines b"
  by (simp add: escapeNewlines_def)

text \<open>
  Claim C3. An unknown id is answered 404 and nothing changes. For a known job the new
  subscriber's response first receives one log event for every line of the job's log, in
  the order of the log, and the subscriber is then added to the job's listener set, all in
  one step. A log event is the two writes \<open>event: log\<close> and \<open>data: \<close> with the line, each
  line feed of the line written as a backslash and the letter n. From then on, as long as
  the subscriber is in the listener set, what it has received is exactly one log event for
  every line of the log so far, in order: every line appended later is delivered, none is
  delivered twice and none is missed. When the job finalizes, the subscriber receives the
  remaining lines and the terminal status event, the two writes \<open>event: status\<close> and
  \<open>data: terminated\<close>, and with that it is removed from the listener set and its response
  is ended.
\<close>

theorem stream_subscription:
  assumes "s = run mx init es" and "c = length (conns s)"
  shows "(jobs s i = None \<longrightarrow> stream i s = (NotFound, s) \<and> httpStatus NotFound = 404)
         \<and> (jobs s i = Some r
              \<longrightarrow> fst (stream i s) = EventStream c
                \<and> written (conns (snd (stream i s)) ! c)
                    = concat (map (\<lambda>l. [''event: log'' @ [CHR 0x0A],
                                              ''data: '' @ escapeNewlines l @ [CHR 0x0A, CHR 0x0A]])
                               (logs (objs s ! r)))
                \<and> listeners (objs (snd (stream i s)) ! r) = listeners (objs s ! r) @ [c]
                \<and> logs (objs (snd (stream i s)) ! r) = logs (objs s ! r))
         \<and> (jobs s i = Some r \<and> s' = run mx (snd (stream i s)) es'
              \<and> c \<in> set (listeners (objs s' ! r))
              \<longrightarrow> written (conns s' ! c)
                    = concat (map (\<lambda>l. [''event: log'' @ [CHR 0x0A],
                                              ''data: '' @ escapeNewlines l @ [CHR 0x0A, CHR 0x0A]])
                               (logs (objs s' ! r)))
                \<and> written (conns (pushLog r line s') ! c)
                    = concat (map (\<lambda>l. [''event: log'' @ [CHR 0x0A],
                                              ''data: '' @ escapeNewlines l @ [CHR 0x0A, CHR 0x0A]])
                               (logs (objs s' ! r)))
                      @ [''event: log'' @ [CHR 0x0A], ''data: '' @ escapeNewlines line @ [CHR 0x0A, CHR 0x0A]]
                \<and> (tasks s' r = Pending
                     \<longrightarrow> written (conns (onResolved r s') ! c)
                          = concat (map (\<lambda>l. [''event: log'' @ [CHR 0x0A],
                                              ''data: '' @ escapeNewlines l @ [CHR 0x0A, CHR 0x0A]])
                               (logs (objs (onResolved r s') ! r)))
                            @ [''event: status'' @ [CHR 0x0A], ''data: terminated'' @ [CHR 0x0A, CHR 0x0A]]
                       \<and> written (conns (onRejected r msg s') ! c)
                          = concat (map (\<lambda>l. [''event: log'' @ [CHR 0x0A],
                                              ''data: '' @ escapeNewlines l @ [CHR 0x0A, CHR 0x0A]])
                               (logs (objs (onRejected r msg s') ! r)))
                            @ [''event: status'' @ [CHR 0x0A], ''data: terminated'' @ [CHR 0x0A, CHR 0x0A]]
                       \<and> ended (conns (onResolved r s') ! c)
                       \<and> c \<notin> set (listeners (objs (onResolved r s') ! r))
                       \<and> ended (conns (onRejected r msg s') ! c)
                       \<and> c \<notin> set (listeners (objs (onRejected r msg s') ! r))))
         \<and> (CHR 0x0A \<notin> set line \<longrightarrow> escapeNewlines line = line)
         \<and> escapeNewlines (a @ CHR 0x0A # b)
             = escapeNewlines a @ [CHR 0x5C, CHR ''n''] @ escapeNewlines b"
proof -
  note f = subscription_frames [OF assms, of i r s' es' line msg]
  have e1: "CHR 0x0A \<notin> set line \<longrightarrow> escapeNewlines line = line"
    by (simp add: escapeNewlines_plain)
  have e2: "escapeNewlines (a @ CHR 0x0A # b)
             = escapeNewlines a @ [CHR 0x5C, CHR ''n''] @ escapeNewlines b"
    by (rule escapeNewlines_break)
  show ?thesis
    unfolding logFrames_literal [symmetric] log_frame [symmetric] logFrames_def [symmetric]
      status_frame [symmetric]
    using f e1 e2 by blast
qed

lemma working_state:
  "jobs (run (Finite 3) init [Start ''a'' credentials, Print (Some ''a'') ''info'' ''working'' ''12:00:00'']) ''a''
     = Some 0"
  "jobs (run (Finite 3) init [Start ''a'' credentials, Print (Some ''a'') ''info'' ''working'' ''12:00:00'']) ''b''
     = None"
  "conns (run (Finite 3) init [Start ''a'' credentials, Print (Some ''a'') ''info'' ''working'' ''12:00:00'']) = []"
  "logs (objs (run (Finite 3) init [Start ''a'' credentials, Print (Some ''a'') ''info'' ''working'' ''12:00:00'']) ! 0)
     = [''Job started.'', ''working'']"
  by (simp_all add: run_simps worker_defs)

lemma working_streamed:
  "objs (run (Finite 3) (snd (stream ''a''
       (run (Finite 3) init [Start ''a'' credentials, Print (Some ''a'') ''info'' ''working'' ''12:00:00''])))
       [Print (Some ''a'') ''info'' ''more'' ''12:00:01''])
     = [\<lparr>job_id = ''a'', status = Running, logs = [''Job started.'', ''working'', ''more''],
         listeners = [0], aborted = False\<rparr>]"
  "tasks (run (Finite 3) (snd (stream ''a''
       (run (Finite 3) init [Start ''a'' credentials, Print (Some ''a'') ''info'' ''working'' ''12:00:00''])))
       [Print (Some ''a'') ''info'' ''more'' ''12:00:01'']) 0 = Pending"
  by (simp_all add: run_simps worker_defs)

lemma working_resolved:
  "logs (objs (onResolved 0 (run (Finite 3) (snd (stream ''a''
       (run (Finite 3) init [Start ''a'' credentials, Print (Some ''a'') ''info'' ''working'' ''12:00:00''])))
       [Print (Some ''a'') ''info'' ''more'' ''12:00:01''])) ! 0)
     = [''Job started.'', ''working'', ''more'', ''Job terminated successfully.'']"
  by (simp add: run_simps worker_defs)

theorem stream_subscription_witness:
  "stream ''b'' (run (Finite 3) init [Start ''a'' credentials, Print (Some ''a'') ''info'' ''working'' ''12:00:00''])
     = (NotFound, run (Finite 3) init [Start ''a'' credentials, Print (Some ''a'') ''info'' ''working'' ''12:00:00''])
   \<and> written (conns (snd (stream ''a''
         (run (Finite 3) init [Start ''a'' credentials, Print (Some ''a'') ''info'' ''working'' ''12:00:00'']))) ! 0)
       = [''event: log'' @ [CHR 0x0A], ''data: Job started.'' @ [CHR 0x0A, CHR 0x0A],
          ''event: log'' @ [CHR 0x0A], ''data: working'' @ [CHR 0x0A, CHR 0x0A]]
   \<and> written (conns (run (Finite 3) (snd (stream ''a''
         (run (Finite 3) init [Start ''a'' credentials, Print (Some ''a'') ''info'' ''working'' ''12:00:00''])))
         [Print (Some ''a'') ''info'' ''more'' ''12:00:01'']) ! 0)
       = [''event: log'' @ [CHR 0x0A], ''data: Job started.'' @ [CHR 0x0A, CHR 0x0A],
          ''event: log'' @ [CHR 0x0A], ''data: working'' @ [CHR 0x0A, CHR 0x0A],
          ''event: log'' @ [CHR 0x0A], ''data: more'' @ [CHR 0x0A, CHR 0x0A]]
   \<and> written (conns (pushLog 0 (''x'' @ [CHR 0x0A] @ ''y'') (run (Finite 3) (snd (stream ''a''
         (run (Finite 3) init [Start ''a'' credentials, Print (Some ''a'') ''info'' ''working'' ''12:00:00''])))
         [Print (Some ''a'') ''info'' ''more'' ''12:00:01''])) ! 0)
       = [''event: log'' @ [CHR 0x0A], ''data: Job started.'' @ [CHR 0x0A, CHR 0x0A],
          ''event: log'' @ [CHR 0x0A], ''data: working'' @ [CHR 0x0A, CHR 0x0A],
          ''event: log'' @ [CHR 0x0A], ''data: more'' @ [CHR 0x0A, CHR 0x0A],
          ''event: log'' @ [CHR 0x0A], ''data: x'' @ [CHR 0x5C, CHR ''n''] @ ''y'' @ [CHR 0x0A, CHR 0x0A]]
   \<and> written (conns (onResolved 0 (run (Finite 3) (snd (stream ''a''
         (run (Finite 3) init [Start ''a'' credentials, Print (Some ''a'') ''info'' ''working'' ''12:00:00''])))
         [Print (Some ''a'') ''info'' ''more'' ''12:00:01''])) ! 0)
       = [''event: log'' @ [CHR 0x0A], ''data: Job started.'' @ [CHR 0x0A, CHR 0x0A],
          ''event: log'' @ [CHR 0x0A], ''data: working'' @ [CHR 0x0A, CHR 0x0A],
          ''event: log'' @ [CHR 0x0A], ''data: more'' @ [CHR 0x0A, CHR 0x0A],
          ''event: log'' @ [CHR 0x0A], ''data: Job terminated successfully.'' @ [CHR 0x0A, CHR 0x0A],
          ''event: status'' @ [CHR 0x0A], ''data: terminated'' @ [CHR 0x0A, CHR 0x0A]]
   \<and> ended (conns (onResolved 0 (run (Finite 3) (snd (stream ''a''
         (run (Finite 3) init [Start ''a'' credentials, Print (Some ''a'') ''info'' ''working'' ''12:00:00''])))
         [Print (Some ''a'') ''info'' ''more'' ''12:00:01''])) ! 0)
   \<and> 0 \<notin> set (listeners (objs (onResolved 0 (run (Finite 3) (snd (stream ''a''
         (run (Finite 3) init [Start ''a'' credentials, Print (Some ''a'') ''info'' ''working'' ''12:00:00''])))
         [Print (Some ''a'') ''info'' ''more'' ''12:00:01''])) ! 0))
   \<and> escapeNewlines (''x'' @ CHR 0x0A # ''y'') = ''x'' @ [CHR 0x5C, CHR ''n''] @ ''y''"
proof -
  note t = stream_subscription [OF refl refl, where mx = "Finite 3"
      and es = "[Start ''a'' credentials, Print (Some ''a'') ''info'' ''working'' ''12:00:00'']"]
  from t [where i = "''b''" and r = 0 and line = "''x''" and msg = "''y''" and es' = "[]"
            and a = "''x''" and b = "''y''"
            and s' = "run (Finite 3) (snd (stream ''b''
         (run (Finite 3) init [Start ''a'' credentials, Print (Some ''a'') ''info'' ''working'' ''12:00:00''])))
         []"]
       t [where i = "''a''" and r = 0 and line = "''x'' @ [CHR 0x0A] @ ''y''" and msg = "''y''"
            and a = "''x''" and b = "''y''"
            and es' = "[Print (Some ''a'') ''info'' ''more'' ''12:00:01'']"
            and s' = "run (Finite 3) (snd (stream ''a''
         (run (Finite 3) init [Start ''a'' credentials, Print (Some ''a'') ''info'' ''working'' ''12:00:00''])))
         [Print (Some ''a'') ''info'' ''more'' ''12:00:01'']"]
  show ?thesis
    by (simp add: working_state working_streamed working_resolved escapeNewlines_def)
qed


section \<open>Log routing\<close>

text \<open>
  The pieces of \<open>split\<close> joined by line feeds are the message again and hold no line
  feed; \<open>trimEnd\<close> removes a suffix of white space and leaves no white space at the end.
\<close>

lemma splitLines_nonempty: "splitLines s \<noteq> []"
  by (induction s) (auto split: list.split)

lemma splitLines_join: "concat (map (\<lambda>l. l @ [CHR 0x0A]) (splitLines s)) = s @ [CHR 0x0A]"
proof (induction s)
  case Nil
  then show ?case by simp
next
  case (Cons c cs)
  then show ?case
    using splitLines_nonempty [of cs] by (cases "splitLines cs") auto
qed

lemma splitLines_no_newline: "l \<in> set (splitLines s) \<Longrightarrow> CHR 0x0A \<notin> set l"
proof (induction s arbitrary: l)
  case Nil
  then show ?case by simp
next
  case (Cons c cs)
  then show ?case
    using splitLines_nonempty [of cs] by (cases "splitLines cs") (auto split: if_splits)
qed

lemma trimEnd_spec:
  "\<exists>ws. l = trimEnd l @ ws \<and> (\<forall>c \<in> set ws. isWhiteSpace c)
        \<and> (trimEnd l \<noteq> [] \<longrightarrow> \<not> isWhiteSpace (last (trimEnd l)))"
proof (intro exI conjI)
  let ?ws = "rev (takeWhile isWhiteSpace (rev l))"
  have "rev (dropWhile isWhiteSpace (rev l)) @ ?ws
          = rev (takeWhile isWhiteSpace (rev l) @ dropWhile isWhiteSpace (rev l))"
    by (simp only: rev_append)
  also have "\<dots> = l" by (simp only: takeWhile_dropWhile_id rev_rev_ident)
  finally show "l = trimEnd l @ ?ws" by (simp add: trimEnd_def)
  show "\<forall>c \<in> set ?ws. isWhiteSpace c" by (auto dest: set_takeWhileD)
  show "trimEnd l \<noteq> [] \<longrightarrow> \<not> isWhiteSpace (last (trimEnd l))"
    by (auto simp: trimEnd_def last_rev hd_dropWhile)
qed

lemma stripAnsi_plain: "CHR 0x1B \<notin> set s \<Longrightarrow> stripAnsi s = s"
  by (induction s) auto

lemma emitted_line_shape:
  assumes "l \<in> set (filter (\<lambda>l. l \<noteq> []) (map trimEnd (splitLines m)))"
  shows "l \<noteq> [] \<and> CHR 0x0A \<notin> set l \<and> \<not> isWhiteSpace (last l)"
proof -
  from assms obtain p where p: "p \<in> set (splitLines m)" and l: "l = trimEnd p" and ne: "l \<noteq> []"
    by auto
  from trimEnd_spec [of p] obtain ws where ws: "p = trimEnd p @ ws"
    and last: "trimEnd p \<noteq> [] \<longrightarrow> \<not> isWhiteSpace (last (trimEnd p))"
    by blast
  from ws have "set (trimEnd p) \<subseteq> set p" by (metis set_append sup_ge1)
  with splitLines_no_newline [OF p] have "CHR 0x0A \<notin> set (trimEnd p)" by blast
  with l ne last show ?thesis by simp
qed

lemma pushAll_conn:
  "listenersOk s \<Longrightarrow> r < length (objs s) \<Longrightarrow>
   conns (foldl (\<lambda>t l. pushLog r l t) s ls) ! c
     = (if c \<in> set (listeners (objs s ! r))
        then (conns s ! c)\<lparr>written := written (conns s ! c) @ logFrames ls\<rparr>
        else conns s ! c)"
proof (induction ls arbitrary: s)
  case Nil
  then show ?case by (simp add: logFrames_simps)
next
  case (Cons l ls)
  have ok: "listenersOk (pushLog r l s)" using Cons.prems by (rule listenersOk_pushLog)
  have r: "r < length (objs (pushLog r l s))" using Cons.prems by simp
  from Cons.IH [OF ok r] pushLog_closed(2,3) [OF Cons.prems, of c l]
  show ?case by (simp add: logFrames_simps)
qed

lemma colored_lines:
  "filter (\<lambda>l. l \<noteq> [])
     (map trimEnd (splitLines (stripAnsi
        ([CHR 0x1B] @ ''[36m'' @ ''step one  '' @ [CHR 0x1B] @ ''[0m'' @ [CHR 0x0A, CHR 0x0A]
          @ ''  step two'' @ [CHR 0x09, CHR 0x0A]))))
     = [''step one'', ''  step two'']"
  by (simp add: trimEnd_def isWhiteSpace_def isCsiParam_def isDigit_def)

text \<open>
  Claim C7 as stated fails in one point: the job's buffer is a list of strings. The sink is
  handed a \<open>{level, message, timestamp}\<close> entry and appends the message text alone, so a
  call at level \<open>info\<close> and a call at level \<open>error\<close> at another time leave the same buffer.
\<close>

theorem log_entry_counterexample:
  "logs (objs (print (Some ''a'') ''info'' ''x'' ''12:00:00'' (run (Finite 3) init [Start ''a'' credentials])) ! 0)
     = [''Job started.'', ''x'']
   \<and> logs (objs (print (Some ''a'') ''error'' ''x'' ''13:30:00'' (run (Finite 3) init [Start ''a'' credentials])) ! 0)
     = [''Job started.'', ''x'']"
  by (simp add: run_simps worker_defs)

text \<open>
  Claim C7, amended. For a log call made under the binding of a job id for which a sink is
  registered, the message is stripped of ANSI colour sequences and split at line feeds,
  each piece loses its trailing white space, and the pieces that become empty are dropped;
  the text of each remaining line, and nothing of the level or the timestamp, is appended
  to the buffer of the sink's job, in order, and is delivered as a log event to every
  listener attached to that job and to no other response. A log call with no binding, or
  with a binding for which no sink is registered, changes no job and no response; it only
  prints to the console.
\<close>

theorem log_routing:
  assumes "s = run mx init es" and "logSinks s i = Some r"
    and "ls = filter (\<lambda>l. l \<noteq> []) (map trimEnd (splitLines (stripAnsi formatted)))"
    and "s' = print (Some i) lvl formatted ts s"
  shows "logs (objs s' ! r) = logs (objs s ! r) @ ls
         \<and> (k \<noteq> r \<longrightarrow> logs (objs s' ! k) = logs (objs s ! k))
         \<and> (c \<in> set (listeners (objs s ! r))
              \<longrightarrow> written (conns s' ! c) = written (conns s ! c) @ logFrames ls)
         \<and> (c \<notin> set (listeners (objs s ! r)) \<longrightarrow> conns s' ! c = conns s ! c)
         \<and> print (Some i) lvl' formatted ts' s = s'
         \<and> objs (print None lvl formatted ts s) = objs s
         \<and> conns (print None lvl formatted ts s) = conns s
         \<and> (logSinks s j = None
              \<longrightarrow> objs (print (Some j) lvl formatted ts s) = objs s
                \<and> conns (print (Some j) lvl formatted ts s) = conns s)
         \<and> console (print ctx lvl formatted ts s) = console s @ [formatted]
         \<and> (\<forall>l \<in> set ls. l \<noteq> [] \<and> CHR 0x0A \<notin> set l \<and> \<not> isWhiteSpace (last l))"
proof -
  let ?t = "s\<lparr>console := console s @ [formatted]\<rparr>"
  from assms(1) have wf: "wellFormed s" by (simp add: reachable_wellFormed)
  with assms(2) have r: "r < length (objs ?t)" by (simp add: wellFormed_def refsOk_def)
  from wf have ok: "listenersOk ?t" by (simp add: wellFormed_def)
  have sink: "logSinks ?t i = Some r" using assms(2) by simp
  have s': "s' = foldl (\<lambda>t l. pushLog r l t) ?t ls"
    using assms(3,4) by (simp add: print_def emit_cases(3) [OF sink])
  have same: "print (Some i) lvl' formatted ts' s = s'"
    using assms(3) by (simp add: s' print_def emit_cases(3) [OF sink])
  have none: "print None lvl formatted ts s = ?t"
    by (simp add: print_def emit_cases)
  have nosink: "logSinks s j = None \<longrightarrow> print (Some j) lvl formatted ts s = ?t"
    by (simp add: print_def emit_cases)
  have shape: "\<forall>l \<in> set ls. l \<noteq> [] \<and> CHR 0x0A \<notin> set l \<and> \<not> isWhiteSpace (last l)"
  proof
    fix l assume "l \<in> set ls"
    then have "l \<in> set (filter (\<lambda>l. l \<noteq> []) (map trimEnd (splitLines (stripAnsi formatted))))"
      by (simp only: assms(3))
    then show "l \<noteq> [] \<and> CHR 0x0A \<notin> set l \<and> \<not> isWhiteSpace (last l)"
      by (rule emitted_line_shape)
  qed
  have main: "logs (objs s' ! r) = logs (objs s ! r) @ ls
         \<and> (k \<noteq> r \<longrightarrow> logs (objs s' ! k) = logs (objs s ! k))
         \<and> (c \<in> set (listeners (objs s ! r))
              \<longrightarrow> written (conns s' ! c) = written (conns s ! c) @ logFrames ls)
         \<and> (c \<notin> set (listeners (objs s ! r)) \<longrightarrow> conns s' ! c = conns s ! c)
         \<and> print (Some i) lvl' formatted ts' s = s'
         \<and> objs (print None lvl formatted ts s) = objs s
         \<and> conns (print None lvl formatted ts s) = conns s
         \<and> (logSinks s j = None
              \<longrightarrow> objs (print (Some j) lvl formatted ts s) = objs s
                \<and> conns (print (Some j) lvl formatted ts s) = conns s)
         \<and> console (print ctx lvl formatted ts s) = console s @ [formatted]"
    using pushAll_logs(1) [OF r, of ls] pushAll_logs(2) [of k r ?t ls]
       pushAll_conn [OF ok r, of ls c] same none nosink
    by (simp add: s')
  from main shape show ?thesis by blast
qed

lemma started_colored:
  "logSinks (run (Finite 3) init [Start ''a'' credentials, Stream ''a'']) ''a'' = Some 0"
  by (simp add: run_simps worker_defs)

theorem log_routing_witness:
  "logs (objs (print (Some ''a'') ''action''
        ([CHR 0x1B] @ ''[36m'' @ ''step one  '' @ [CHR 0x1B] @ ''[0m'' @ [CHR 0x0A, CHR 0x0A]
          @ ''  step two'' @ [CHR 0x09, CHR 0x0A])
        ''12:00:00'' (run (Finite 3) init [Start ''a'' credentials, Stream ''a''])) ! 0)
     = [''Job started.'', ''step one'', ''  step two'']
   \<and> written (conns (print (Some ''a'') ''action''
        ([CHR 0x1B] @ ''[36m'' @ ''step one  '' @ [CHR 0x1B] @ ''[0m'' @ [CHR 0x0A, CHR 0x0A]
          @ ''  step two'' @ [CHR 0x09, CHR 0x0A])
        ''12:00:00'' (run (Finite 3) init [Start ''a'' credentials, Stream ''a''])) ! 0)
     = logFrames [''Job started.'', ''step one'', ''  step two'']
   \<and> objs (print (Some ''b'') ''action''
        ([CHR 0x1B] @ ''[36m'' @ ''step one  '' @ [CHR 0x1B] @ ''[0m'' @ [CHR 0x0A, CHR 0x0A]
          @ ''  step two'' @ [CHR 0x09, CHR 0x0A])
        ''12:00:00'' (run (Finite 3) init [Start ''a'' credentials, Stream ''a'']))
     = objs (run (Finite 3) init [Start ''a'' credentials, Stream ''a''])"
proof -
  let ?S = "run (Finite 3) init [Start ''a'' credentials, Stream ''a'']"
  let ?m = "[CHR 0x1B] @ ''[36m'' @ ''step one  '' @ [CHR 0x1B] @ ''[0m'' @ [CHR 0x0A, CHR 0x0A]
          @ ''  step two'' @ [CHR 0x09, CHR 0x0A]"
  have nb: "logSinks ?S ''b'' = None"
    by (simp add: run_simps worker_defs)
  have att: "0 \<in> set (listeners (objs ?S ! 0))"
    by (simp add: started_streamed)
  note t = log_routing [OF refl started_colored colored_lines [symmetric] refl,
         where c = 0 and k = 1 and j = "''b''" and lvl' = "''action''" and ts' = "''12:00:00''"
           and ctx = None and lvl = "''action''" and ts = "''12:00:00''"]
  from t have 1: "logs (objs (print (Some ''a'') ''action'' ?m ''12:00:00'' ?S) ! 0)
        = logs (objs ?S ! 0) @ [''step one'', ''  step two'']"
    by (rule conjunct1)
  from t att have 2: "written (conns (print (Some ''a'') ''action'' ?m ''12:00:00'' ?S) ! 0)
        = written (conns ?S ! 0) @ logFrames [''step one'', ''  step two'']"
    by blast
  from t nb have 3: "objs (print (Some ''b'') ''action'' ?m ''12:00:00'' ?S) = objs ?S"
    by blast
  from 1 2 3 show ?thesis
    by (simp add: started_streamed logFrames_simps)
qed

section \<open>Polling with a cursor\<close>

text \<open>
  No event shortens or rewrites a job's log, and with fresh ids no event rebinds a
  registered id; so the lines a resuming client has seen stay a prefix of the log.
\<close>

lemma logs_step_append:
  assumes wf: "wellFormed s" and r: "r < length (objs s)"
  shows "\<exists>ls. logs (objs (step mx s e) ! r) = logs (objs s ! r) @ ls"
proof (cases e)
  case (Start i req)
  from r show ?thesis
    using start_state_cases [of mx i req s]
    by (auto simp: Start pushLog_logs nth_append)
next
  case (End i)
  show ?thesis
  proof (cases "jobs s i")
    case None
    then show ?thesis by (simp add: End endJob_cases)
  next
    case (Some k)
    with wf have k: "k < length (objs s)" by (simp add: wellFormed_def refsOk_def)
    show ?thesis
    proof (cases "status (objs s ! k) = Running")
      case True
      with k show ?thesis
        by (cases "r = k") (simp_all add: End endJob_cases(3) [OF Some True] pushLog_logs)
    next
      case False
      with Some show ?thesis by (simp add: End endJob_cases)
    qed
  qed
next
  case (Print ctx lvl formatted ts)
  show ?thesis
  proof (cases ctx)
    case None
    then show ?thesis by (simp add: Print print_def emit_cases)
  next
    case (Some i)
    show ?thesis
    proof (cases "logSinks s i")
      case None
      with Some show ?thesis by (simp add: Print print_def emit_cases)
    next
      case (Some k)
      with wf have k: "k < length (objs s)" by (simp add: wellFormed_def refsOk_def)
      with Some \<open>ctx = Some i\<close> show ?thesis
        by (cases "r = k") (simp_all add: Print print_def emit_cases pushAll_logs)
    qed
  qed
next
  case (Resolved k)
  from wf have ok: "listenersOk s" by (simp add: wellFormed_def)
  show ?thesis
  proof (cases "k < length (objs s) \<and> tasks s k = Pending")
    case True
    then show ?thesis using onResolved_closed(1) [OF ok, of k r] by (simp add: Resolved)
  next
    case False
    then show ?thesis by (simp add: Resolved settle_status)
  qed
next
  case (Rejected k msg)
  from wf have ok: "listenersOk s" by (simp add: wellFormed_def)
  show ?thesis
  proof (cases "k < length (objs s) \<and> tasks s k = Pending")
    case True
    then show ?thesis using onRejected_closed(1) [OF ok, of k msg r] by (simp add: Rejected)
  next
    case False
    then show ?thesis by (simp add: Rejected settle_status)
  qed
qed simp_all

lemma jobs_step_fresh:
  assumes "jobs s i = Some r" and "case e of Start j _ \<Rightarrow> jobs s j = None | _ \<Rightarrow> True"
  shows "jobs (step mx s e) i = Some r"
proof (cases e)
  case (Start j req)
  with assms have "j \<noteq> i" by auto
  with assms(1) show ?thesis
    using start_state_cases [of mx j req s] by (auto simp: Start)
qed (use assms in simp_all)

lemma clientPoll_known:
  "jobs s i = Some r \<Longrightarrow>
   clientPoll i s cl = \<lparr>offset = length (logs (objs s ! r)),
                        seen = seen cl @ drop (offset cl) (logs (objs s ! r))\<rparr>"
  by (simp add: clientPoll_def pollLogs_def)

lemma poll_invariant:
  assumes "wellFormed s" and "jobs s i = Some r" and "freshIds mx s (sysEvents ms)"
    and "seen cl = take (offset cl) (logs (objs s ! r))"
    and "offset cl \<le> length (logs (objs s ! r))"
    and "pollRun mx i s cl ms = (s', cl')"
  shows "wellFormed s' \<and> jobs s' i = Some r
         \<and> seen cl' = take (offset cl') (logs (objs s' ! r))
         \<and> offset cl' \<le> length (logs (objs s' ! r))"
  using assms
proof (induction mx i s cl ms rule: pollRun.induct)
  case (1 mx i s c)
  then show ?case by simp
next
  case (2 mx i s c e ms)
  from 2(2,3) have r: "r < length (objs s)" by (simp add: wellFormed_def refsOk_def)
  from logs_step_append [OF 2(2) r, of mx e]
  obtain ls where ls: "logs (objs (step mx s e) ! r) = logs (objs s ! r) @ ls" by blast
  have a: "wellFormed (step mx s e)" using 2(2) by (rule wellFormed_step)
  have b: "jobs (step mx s e) i = Some r" using 2(3,4) by (intro jobs_step_fresh) simp_all
  have c: "freshIds mx (step mx s e) (sysEvents ms)" using 2(4) by simp
  have d: "seen c = take (offset c) (logs (objs (step mx s e) ! r))"
    using 2(5,6) by (simp add: ls)
  have e: "offset c \<le> length (logs (objs (step mx s e) ! r))"
    using 2(6) by (simp add: ls)
  have f: "pollRun mx i (step mx s e) c ms = (s', cl')" using 2(7) by simp
  from "2.IH" [OF a b c d e f] show ?case .
next
  case (3 mx i s c ms)
  let ?c = "clientPoll i s c"
  have c: "freshIds mx s (sysEvents ms)" using 3(4) by simp
  have d: "seen ?c = take (offset ?c) (logs (objs s ! r))"
    using 3(5,6) by (simp add: clientPoll_known [OF 3(3)])
  have e: "offset ?c \<le> length (logs (objs s ! r))"
    by (simp add: clientPoll_known [OF 3(3)])
  have f: "pollRun mx i s ?c ms = (s', cl')" using 3(7) by simp
  from "3.IH" [OF 3(2,3) c d e f] show ?case .
qed

lemma pollRun_append:
  "pollRun mx i s cl (ms @ ms') = (case pollRun mx i s cl ms of (t, c) \<Rightarrow> pollRun mx i t c ms')"
  by (induction mx i s cl ms rule: pollRun.induct) simp_all

text \<open>
  Claim C4. Polling an unknown id gives \<open>NotFound\<close>. Polling a known job with an offset up
  to its line count gives the buffered lines from the offset onward, the line count as
  \<open>nextOffset\<close>, and the job's status; the web route passes this answer on as it is. A
  client that starts at offset 0 and resumes each poll from the \<open>nextOffset\<close> it was given
  has seen, at every moment, exactly the first \<open>offset\<close> lines of the buffer, each once
  and in order, and right after a poll it has seen the whole buffer.
\<close>

theorem poll_cursor:
  assumes "s = run mx init es"
  shows "(jobs s i = None
            \<longrightarrow> pollLogs i off s = PollNotFound \<and> pollStatus (pollLogs i off s) = 404)
         \<and> (jobs s i = Some r \<and> off \<le> length (logs (objs s ! r))
            \<longrightarrow> pollLogs i off s
                  = PollOk (drop off (logs (objs s ! r))) (length (logs (objs s ! r)))
                      (status (objs s ! r))
                \<and> take off (logs (objs s ! r)) @ lines (pollLogs i off s) = logs (objs s ! r))
         \<and> (jobs s i = Some r \<and> freshIds mx s (sysEvents ms)
              \<and> pollRun mx i s \<lparr>offset = 0, seen = []\<rparr> ms = (s', cl)
            \<longrightarrow> seen cl = take (offset cl) (logs (objs s' ! r))
                \<and> offset cl \<le> length (logs (objs s' ! r)))
         \<and> (jobs s i = Some r \<and> freshIds mx s (sysEvents ms)
              \<and> pollRun mx i s \<lparr>offset = 0, seen = []\<rparr> (ms @ [Poll]) = (s', cl)
            \<longrightarrow> seen cl = logs (objs s' ! r) \<and> offset cl = length (logs (objs s' ! r)))
         \<and> logsRoute True True (pollStatus (pollLogs i off s), pollLogs i off s)
             = Relayed (pollStatus (pollLogs i off s)) (pollLogs i off s)"
proof (intro conjI impI)
  from assms have wf: "wellFormed s" by (simp add: reachable_wellFormed)
  {
    assume "jobs s i = None"
    then show "pollLogs i off s = PollNotFound" "pollStatus (pollLogs i off s) = 404"
      by (simp_all add: pollLogs_def)
  }
  {
    assume "jobs s i = Some r \<and> off \<le> length (logs (objs s ! r))"
    then show "pollLogs i off s
                  = PollOk (drop off (logs (objs s ! r))) (length (logs (objs s ! r)))
                      (status (objs s ! r))"
      "take off (logs (objs s ! r)) @ lines (pollLogs i off s) = logs (objs s ! r)"
      by (simp_all add: pollLogs_def)
  }
  {
    assume h: "jobs s i = Some r \<and> freshIds mx s (sysEvents ms)
              \<and> pollRun mx i s \<lparr>offset = 0, seen = []\<rparr> ms = (s', cl)"
    then have j: "jobs s i = Some r" and f: "freshIds mx s (sysEvents ms)"
      and p: "pollRun mx i s \<lparr>offset = 0, seen = []\<rparr> ms = (s', cl)" by blast+
    from poll_invariant [OF wf j f _ _ p]
    show "seen cl = take (offset cl) (logs (objs s' ! r))"
      "offset cl \<le> length (logs (objs s' ! r))" by simp_all
  }
  {
    assume h: "jobs s i = Some r \<and> freshIds mx s (sysEvents ms)
              \<and> pollRun mx i s \<lparr>offset = 0, seen = []\<rparr> (ms @ [Poll]) = (s', cl)"
    then have j: "jobs s i = Some r" and f: "freshIds mx s (sysEvents ms)"
      and p: "pollRun mx i s \<lparr>offset = 0, seen = []\<rparr> (ms @ [Poll]) = (s', cl)" by blast+
    obtain t c where tc: "pollRun mx i s \<lparr>offset = 0, seen = []\<rparr> ms = (t, c)"
      by (cases "pollRun mx i s \<lparr>offset = 0, seen = []\<rparr> ms")
    from poll_invariant [OF wf j f _ _ tc]
    have inv: "jobs t i = Some r" "seen c = take (offset c) (logs (objs t ! r))" by simp_all
    from p tc have "s' = t" "cl = clientPoll i t c" by (auto simp: pollRun_append)
    with inv show "seen cl = logs (objs s' ! r)" "offset cl = length (logs (objs s' ! r))"
      by (simp_all add: clientPoll_known)
  }
  show "logsRoute True True (pollStatus (pollLogs i off s), pollLogs i off s)
             = Relayed (pollStatus (pollLogs i off s)) (pollLogs i off s)"
    by (simp add: logsRoute_def)
qed

theorem poll_cursor_witness:
  "pollLogs ''b'' 0 (run (Finite 3) init [Start ''a'' credentials]) = PollNotFound
   \<and> pollLogs ''a'' 1 (run (Finite 3) init [Start ''a'' credentials]) = PollOk [] 1 Running
   \<and> snd (pollRun (Finite 3) ''a'' (run (Finite 3) init [Start ''a'' credentials]) \<lparr>offset = 0, seen = []\<rparr>
       [Poll, Sys (Print (Some ''a'') ''info'' ''one'' ''12:00:00''),
        Sys (Print (Some ''a'') ''info'' ''two'' ''12:00:01''), Poll, Sys (End ''a''), Poll])
     = \<lparr>offset = 4, seen = [''Job started.'', ''one'', ''two'', ''Termination requested.'']\<rparr>"
proof -
  note t = poll_cursor [OF refl, where mx = "Finite 3" and es = "[Start ''a'' credentials]"]
  from t [where i = "''b''" and off = 0 and r = 0 and ms = "[]"
            and s' = "run (Finite 3) init [Start ''a'' credentials]" and cl = "\<lparr>offset = 0, seen = []\<rparr>"]
       t [where i = "''a''" and off = 1 and r = 0
            and ms = "[Poll, Sys (Print (Some ''a'') ''info'' ''one'' ''12:00:00''),
                       Sys (Print (Some ''a'') ''info'' ''two'' ''12:00:01''), Poll, Sys (End ''a'')]"
            and s' = "run (Finite 3) init [Start ''a'' credentials, Print (Some ''a'') ''info'' ''one'' ''12:00:00'',
                  Print (Some ''a'') ''info'' ''two'' ''12:00:01'', End ''a'']"
            and cl = "\<lparr>offset = 4, seen = [''Job started.'', ''one'', ''two'', ''Termination requested.'']\<rparr>"]
  show ?thesis
    by (simp add: run_simps worker_defs pollLogs_def clientPoll_def)
qed

end
